theory Spec2Isabelle
  imports Main "HOL-Library.Word" "HOL-Library.AList"
begin

section \<open>Bytes and little-endian integers\<close>

text \<open>
  A Go \<^verbatim>\<open>string\<close> and a Go \<^verbatim>\<open>[]byte\<close> are both sequences of bytes; the conversions
  between them copy the bytes. Lengths are Go \<^verbatim>\<open>int\<close>s (64 bit, never negative, never
  overflowing for a slice that fits in memory) and are natural numbers here. The
  conversion \<^verbatim>\<open>uint32(n)\<close> keeps the low 32 bits; all arithmetic that the
  source performs in \<^verbatim>\<open>uint32\<close> is written with that reduction.
\<close>

type_synonym byte = "8 word"
type_synonym bytes = "byte list"

definition uint32 :: "nat \<Rightarrow> nat" where
  "uint32 n = n mod 2 ^ 32"

text \<open>\<^verbatim>\<open>binary.LittleEndian.PutUint32 / PutUint64\<close>: the \<open>k\<close> low bytes of \<open>n\<close>,
  least significant first (\<^verbatim>\<open>b[0] = byte(v); b[1] = byte(v >> 8); ...\<close>).\<close>

fun put_le :: "nat \<Rightarrow> nat \<Rightarrow> bytes" where
  "put_le 0 n = []"
| "put_le (Suc k) n = of_nat n # put_le k (n div 256)"

text \<open>\<^verbatim>\<open>binary.LittleEndian.Uint32 / Uint64\<close> on a slice of exactly 4 or 8 bytes.\<close>

fun get_le :: "bytes \<Rightarrow> nat" where
  "get_le [] = 0"
| "get_le (b # bs) = unat b + 256 * get_le bs"

definition PutUint32 :: "nat \<Rightarrow> bytes" where
  "PutUint32 v = put_le 4 (uint32 v)"

definition Uint32 :: "bytes \<Rightarrow> nat" where
  "Uint32 b = get_le (take 4 b)"

definition PutUint64 :: "64 word \<Rightarrow> bytes" where
  "PutUint64 v = put_le 8 (unat v)"

definition Uint64 :: "bytes \<Rightarrow> 64 word" where
  "Uint64 b = of_nat (get_le (take 8 b))"

text \<open>A slice expression \<^verbatim>\<open>s[lo:hi]\<close> panics unless \<open>lo \<le> hi \<le> cap s\<close>. Every slice
  that reaches the decoder was made with its capacity equal to its length.\<close>

definition go_slice :: "'a list \<Rightarrow> nat \<Rightarrow> nat \<Rightarrow> 'a list option" where
  "go_slice s lo hi = (if lo \<le> hi \<and> hi \<le> length s then Some (take (hi - lo) (drop lo s)) else None)"

section \<open>The record codec\<close>

definition TypeString :: byte where "TypeString = 1"
definition TypeInt64 :: byte where "TypeInt64 = 2"

record entry =
  key :: bytes
  valueType :: byte
  stringValue :: bytes
  int64Value :: "64 word"

text \<open>The zero value \<^verbatim>\<open>entry{}\<close> (\<^verbatim>\<open>var record entry\<close>).\<close>

definition entry0 :: entry where
  "entry0 = \<lparr>key = [], valueType = 0, stringValue = [], int64Value = 0\<rparr>"

text \<open>
  Errors are values. The decoder's \<^verbatim>\<open>fmt.Errorf\<close> errors are one constructor per
  message; \<open>Panic\<close> is a run-time panic (slice bounds out of range); wrapping with
  \<^verbatim>\<open>%w\<close> is a constructor around the wrapped error; \<open>ErrNotExist\<close> is the
  \<^verbatim>\<open>*PathError\<close> of a file that does not exist and \<open>WriteError\<close> the error of a
  failed or short write.
\<close>

datatype error =
    EOF
  | InputTooShort
  | InputTooShortForKey
  | NoValueData
  | InvalidStringValueData
  | StringValueDataTooShort
  | InvalidInt64ValueData
  | InvalidEntrySize nat
  | IncompleteRead nat nat
  | ErrBufferFull
  | CannotReadSize error
  | CannotReadEntry error
  | CorruptedSegmentFile
  | Panic
  | ErrNotFound
  | ErrTypeMismatch
  | UnsupportedValueType byte
  | ErrNotExist
  | WriteError
  | FailedToIndexSegment int error
  | FailedToRebuildIndex error

text \<open>The errors that the specification calls \<open>CorruptRecord\<close>: the bytes do not
  decode as a record.\<close>

fun is_CorruptRecord :: "error \<Rightarrow> bool" where
  "is_CorruptRecord InputTooShort = True"
| "is_CorruptRecord InputTooShortForKey = True"
| "is_CorruptRecord NoValueData = True"
| "is_CorruptRecord InvalidStringValueData = True"
| "is_CorruptRecord StringValueDataTooShort = True"
| "is_CorruptRecord InvalidInt64ValueData = True"
| "is_CorruptRecord (InvalidEntrySize n) = True"
| "is_CorruptRecord (IncompleteRead m n) = True"
| "is_CorruptRecord CorruptedSegmentFile = True"
| "is_CorruptRecord e = False"

text \<open>\<^verbatim>\<open>errors.Is(err, io.EOF)\<close>: the error is \<^verbatim>\<open>io.EOF\<close> or wraps it.\<close>

fun is_EOF :: "error \<Rightarrow> bool" where
  "is_EOF EOF = True"
| "is_EOF (CannotReadSize e) = is_EOF e"
| "is_EOF (CannotReadEntry e) = is_EOF e"
| "is_EOF (FailedToIndexSegment i e) = is_EOF e"
| "is_EOF (FailedToRebuildIndex e) = is_EOF e"
| "is_EOF e = False"

text \<open>\<^verbatim>\<open>entry.Encode\<close>. An unknown value type is written as a string, with type byte
  \<open>TypeString\<close> (the receiver's \<open>valueType\<close> is overwritten before the byte is stored).\<close>

definition valueData_of :: "entry \<Rightarrow> bytes" where
  "valueData_of e =
     (if valueType e = TypeString then PutUint32 (length (stringValue e)) @ stringValue e
      else if valueType e = TypeInt64 then PutUint64 (int64Value e)
      else PutUint32 (length (stringValue e)) @ stringValue e)"

definition Encode :: "entry \<Rightarrow> bytes" where
  "Encode e =
     (let kl = length (key e);
          valueData = valueData_of e;
          vt = (if valueType e = TypeString \<or> valueType e = TypeInt64 then valueType e else TypeString);
          size = 4 + 4 + kl + 1 + length valueData
      in PutUint32 size @ PutUint32 kl @ key e @ [vt] @ valueData)"

text \<open>The unknown-type branch of \<^verbatim>\<open>entry.Decode\<close>.\<close>

definition decode_unknown :: "entry \<Rightarrow> bytes \<Rightarrow> error + entry" where
  "decode_unknown e valueData =
     (if length valueData \<ge> 4 then
        let strLen = Uint32 (take 4 valueData) in
        if length valueData \<ge> uint32 (4 + strLen) then
          (case go_slice valueData 4 (uint32 (4 + strLen)) of
             None \<Rightarrow> Inl Panic
           | Some s \<Rightarrow> Inr (e\<lparr>stringValue := s, valueType := TypeString\<rparr>))
        else Inr (e\<lparr>stringValue := valueData, valueType := TypeString\<rparr>)
      else Inr (e\<lparr>stringValue := valueData, valueType := TypeString\<rparr>))"

text \<open>The \<^verbatim>\<open>switch e.valueType\<close> of \<^verbatim>\<open>entry.Decode\<close> on the value data.\<close>

definition decode_value :: "entry \<Rightarrow> bytes \<Rightarrow> error + entry" where
  "decode_value e valueData =
     (if valueType e = TypeString then
        (if length valueData < 4 then Inl InvalidStringValueData
         else
           let strLen = Uint32 (take 4 valueData) in
           if length valueData < uint32 (4 + strLen) then Inl StringValueDataTooShort
           else
             (case go_slice valueData 4 (uint32 (4 + strLen)) of
                None \<Rightarrow> Inl Panic
              | Some s \<Rightarrow> Inr (e\<lparr>stringValue := s\<rparr>)))
      else if valueType e = TypeInt64 then
        (if length valueData < 8 then Inl InvalidInt64ValueData
         else Inr (e\<lparr>int64Value := Uint64 (take 8 valueData)\<rparr>))
      else decode_unknown e valueData)"

text \<open>\<^verbatim>\<open>entry.Decode\<close>. The receiver is returned updated on success; on an error the
  callers drop the receiver, so the partially updated receiver is not part of the result.\<close>

definition Decode :: "entry \<Rightarrow> bytes \<Rightarrow> error + entry" where
  "Decode e input =
     (if length input < 9 then Inl InputTooShort
      else
        let keyLen = Uint32 (take 4 (drop 4 input)) in
        if length input < uint32 (8 + keyLen + 1) then Inl InputTooShortForKey
        else
          (case go_slice input 8 (uint32 (8 + keyLen)) of
             None \<Rightarrow> Inl Panic
           | Some k \<Rightarrow>
              let e1 = e\<lparr>key := k\<rparr>;
                  typeOffset = uint32 (8 + keyLen)
              in
              if typeOffset \<ge> uint32 (length input) then
                (case go_slice input (uint32 (8 + keyLen)) (length input) of
                   None \<Rightarrow> Inl Panic
                 | Some s \<Rightarrow> Inr (e1\<lparr>valueType := TypeString, stringValue := s\<rparr>))
              else
                let e2 = e1\<lparr>valueType := input ! typeOffset\<rparr>;
                    valueDataStart = uint32 (typeOffset + 1)
                in
                if valueDataStart \<ge> length input then Inl NoValueData
                else decode_value e2 (drop valueDataStart input)))"

section \<open>The buffered reader\<close>

text \<open>
  \<^verbatim>\<open>entry.DecodeFromReader\<close> reads from a \<^verbatim>\<open>*bufio.Reader\<close> of the Go standard
  library, created by \<^verbatim>\<open>bufio.NewReader\<close> with the default buffer of 4096 bytes
  over a file or a \<^verbatim>\<open>bytes.Reader\<close>. The reader is modelled by the bytes that are in
  its buffer and not yet consumed (\<open>buffered\<close>, the library's \<^verbatim>\<open>b.buf[b.r:b.w]\<close>) and
  the bytes that the underlying reader has not delivered yet (\<open>rd\<close>). One
  \<^verbatim>\<open>Read\<close> of the underlying reader into a slice of \<open>k\<close> bytes delivers
  \<open>min k (length rd)\<close> bytes, and \<^verbatim>\<open>(0, io.EOF)\<close> when nothing is left: that is what a
  regular file and a \<^verbatim>\<open>bytes.Reader\<close> do.

  \<^item> \<^verbatim>\<open>fill\<close> slides the buffered bytes to the front of the buffer and does one
    \<^verbatim>\<open>Read\<close> of the underlying reader into the free rest of the buffer.
  \<^item> \<^verbatim>\<open>Peek(n)\<close> fills while fewer than \<open>n\<close> bytes are buffered, the buffer is not
    full and no error is pending (\<open>Peek_loop\<close>: a fill that meets the end of the
    underlying reader leaves \<^verbatim>\<open>io.EOF\<close> pending and ends the loop); then it
    returns the first \<open>n\<close> buffered bytes, or fewer together with the pending error.
  \<^item> \<^verbatim>\<open>Read(p)\<close> copies \<open>min (len p) (length buffered)\<close> bytes when the buffer is not
    empty; it does not go back to the underlying reader (the library: "The bytes are
    taken from at most one Read on the underlying Reader, hence n may be less than
    len(p). To read exactly len(p) bytes, use io.ReadFull(b, p).").
\<close>

record reader =
  buffered :: bytes
  rd :: bytes

definition defaultBufSize :: nat where
  "defaultBufSize = 4096"

definition NewReader :: "bytes \<Rightarrow> reader" where
  "NewReader data = \<lparr>buffered = [], rd = data\<rparr>"

definition fill :: "reader \<Rightarrow> reader \<times> error option" where
  "fill r =
     (if rd r = [] then (r, Some EOF)
      else let k = defaultBufSize - length (buffered r)
           in (\<lparr>buffered = buffered r @ take k (rd r), rd = drop k (rd r)\<rparr>, None))"

function Peek_loop :: "nat \<Rightarrow> reader \<Rightarrow> reader \<times> error option" where
  "Peek_loop n r =
     (if length (buffered r) < n \<and> length (buffered r) < defaultBufSize then
        (if rd r = [] then (r, Some EOF) else Peek_loop n (fst (fill r)))
      else (r, None))"
  by pat_completeness auto
termination
proof (relation "measure (\<lambda>(n, r). length (rd r))")
  show "wf (measure (\<lambda>(n, r). length (rd r)))" by simp
next
  fix n :: nat and r :: reader
  assume a: "length (buffered r) < n \<and> length (buffered r) < defaultBufSize" and b: "rd r \<noteq> []"
  from b have "0 < length (rd r)" by simp
  with a have "length (rd r) - (defaultBufSize - length (buffered r)) < length (rd r)"
    by arith
  then show "((n, fst (fill r)), (n, r)) \<in> measure (\<lambda>(n, r). length (rd r))"
    using b by (simp add: fill_def Let_def)
qed

declare Peek_loop.simps [simp del]

text \<open>\<^verbatim>\<open>Peek(n)\<close> for \<open>n\<close> at most the buffer size: the bytes, the error, the reader.\<close>

definition Peek :: "nat \<Rightarrow> reader \<Rightarrow> bytes \<times> error option \<times> reader" where
  "Peek n r =
     (case Peek_loop n r of (r', err) \<Rightarrow>
        if length (buffered r') < n
        then (buffered r', Some (case err of Some e \<Rightarrow> e | None \<Rightarrow> ErrBufferFull), r')
        else (take n (buffered r'), None, r'))"

text \<open>\<^verbatim>\<open>Read(p)\<close> with \<open>len p = n > 0\<close>: the bytes copied into \<open>p\<close>, the error, the reader.\<close>

definition Read :: "nat \<Rightarrow> reader \<Rightarrow> bytes \<times> error option \<times> reader" where
  "Read n r =
     (if buffered r = [] then
        (if rd r = [] then ([], Some EOF, r)
         else if n \<ge> defaultBufSize then (take n (rd r), None, r\<lparr>rd := drop n (rd r)\<rparr>)
         else
           let b = take defaultBufSize (rd r)
           in (take n b, None, \<lparr>buffered = drop n b, rd = drop defaultBufSize (rd r)\<rparr>))
      else (take n (buffered r), None, r\<lparr>buffered := drop n (buffered r)\<rparr>))"

text \<open>\<^verbatim>\<open>entry.DecodeFromReader\<close>: the count \<open>n\<close>, the error or the decoded receiver, and
  the reader after the call.\<close>

definition DecodeFromReader :: "entry \<Rightarrow> reader \<Rightarrow> (nat \<times> (error + entry)) \<times> reader" where
  "DecodeFromReader e r =
     (case Peek 4 r of
        (sizeBuf, Some err, r1) \<Rightarrow>
          if is_EOF err then ((0, Inl err), r1) else ((0, Inl (CannotReadSize err)), r1)
      | (sizeBuf, None, r1) \<Rightarrow>
          let totalSize = Uint32 sizeBuf in
          if totalSize < 9 then ((0, Inl (InvalidEntrySize totalSize)), r1)
          else
            (case Read totalSize r1 of
               (buf, Some err, r2) \<Rightarrow> ((length buf, Inl (CannotReadEntry err)), r2)
             | (buf, None, r2) \<Rightarrow>
                 if length buf \<noteq> totalSize then ((length buf, Inl (IncompleteRead totalSize (length buf))), r2)
                 else ((length buf, Decode e buf), r2)))"

section \<open>The engine\<close>

text \<open>
  The data directory is the list of its files, each name once. The names that the
  engine reads are \<^verbatim>\<open>current-data\<close>, \<^verbatim>\<open>segment-<id>\<close> (the decimal id as
  \<^verbatim>\<open>fmt.Sprintf("%s%d", ...)\<close> prints it) and \<^verbatim>\<open>temp-merge\<close>; a file of any
  other name is skipped by \<^verbatim>\<open>loadExistingSegments\<close> and never touched, and is left
  out. Segment ids are Go \<^verbatim>\<open>int\<close>s; they are integers here (an id grows by one per
  rotation; the wrap-around of an id at \<open>2^63\<close> is not modelled). Offsets and file
  sizes are never negative and are natural numbers. The fields of \<^verbatim>\<open>putRequest\<close>
  carry the prefix \<open>req_\<close>, and the field \<^verbatim>\<open>id\<close> of \<^verbatim>\<open>segmentInfo\<close> is
  \<open>id_seg\<close>; the reply channel of a request is the result of \<open>handlePut\<close>.
\<close>

datatype fname = CurrentData | SegmentFile int | TempMerge

type_synonym dir = "(fname \<times> bytes) list"

record segmentInfo =
  id_seg :: int
  filePath :: fname
  readOnly :: bool

record indexEntry =
  segmentID :: int
  offset :: nat

type_synonym hashIndex = "bytes \<rightharpoonup> indexEntry"

record putRequest =
  req_key :: bytes
  req_value :: bytes
  req_int64Value :: "64 word"
  req_valueType :: byte

text \<open>The engine's fields that the writer and the readers use, and the directory
  \<open>files\<close> that it works on. \<open>out\<close> is the file the writer's handle was opened on
  (\<open>None\<close> is Go's \<^verbatim>\<open>nil\<close>).\<close>

record Db =
  index :: hashIndex
  maxSegmentSize :: int
  activeSegmentID :: int
  segments :: "segmentInfo list"
  out :: "fname option"
  outOffset :: nat
  files :: dir

text \<open>The key \<^verbatim>\<open>"__MERGE__"\<close>, as bytes.\<close>

definition merge_key :: bytes where
  "merge_key = [0x5F, 0x5F, 0x4D, 0x45, 0x52, 0x47, 0x45, 0x5F, 0x5F]"

text \<open>\<^verbatim>\<open>os.Rename\<close>: fails when the old name does not exist, replaces the new name.\<close>

definition rename :: "fname \<Rightarrow> fname \<Rightarrow> dir \<Rightarrow> dir option" where
  "rename old new d =
     (case map_of d old of
        None \<Rightarrow> None
      | Some data \<Rightarrow> Some (AList.update new data (AList.delete old d)))"

text \<open>
  \<^verbatim>\<open>db.out.Write(data)\<close> on the handle opened with \<^verbatim>\<open>O_APPEND\<close>. The outcome of the
  write is the environment's: it succeeds, or it fails after \<open>m\<close> bytes (a short write
  or an I/O error; \<^verbatim>\<open>os.File.Write\<close> returns a non-nil error whenever fewer than
  \<open>len data\<close> bytes were written). The result is the count, the error and the directory.
\<close>

datatype write_outcome = WriteOk | WriteFails nat

definition append_file :: "fname \<Rightarrow> bytes \<Rightarrow> dir \<Rightarrow> dir" where
  "append_file f data d =
     (case map_of d f of
        None \<Rightarrow> AList.update f data d
      | Some old \<Rightarrow> AList.update f (old @ data) d)"

definition write_file :: "write_outcome \<Rightarrow> fname \<Rightarrow> bytes \<Rightarrow> dir \<Rightarrow> nat \<times> error option \<times> dir" where
  "write_file wr f data d =
     (case wr of
        WriteOk \<Rightarrow> (length data, None, append_file f data d)
      | WriteFails m \<Rightarrow> (min m (length data), Some WriteError, append_file f (take m data) d))"

text \<open>\<^verbatim>\<open>loadExistingSegments\<close>: the loop over the directory entries, then the sort by
  id (\<^verbatim>\<open>sort.Slice\<close>; the ids of distinct file names are distinct, so the sorted
  order is determined) and the choice of the active id.\<close>

fun load_step :: "fname \<Rightarrow> segmentInfo list \<times> int \<times> bool \<Rightarrow> segmentInfo list \<times> int \<times> bool" where
  "load_step (SegmentFile i) (segmentInfos, maxSegmentID, hasCurrentData) =
     (segmentInfos @ [\<lparr>id_seg = i, filePath = SegmentFile i, readOnly = True\<rparr>],
      (if i > maxSegmentID then i else maxSegmentID), hasCurrentData)"
| "load_step CurrentData (segmentInfos, maxSegmentID, hasCurrentData) =
     (segmentInfos, maxSegmentID, True)"
| "load_step TempMerge acc = acc"

definition loadExistingSegments :: "Db \<Rightarrow> Db" where
  "loadExistingSegments db =
     (case fold load_step (map fst (files db)) ([], -1, False) of
        (segmentInfos, maxSegmentID, hasCurrentData) \<Rightarrow>
          db\<lparr>segments := sort_key id_seg segmentInfos,
             activeSegmentID :=
               (if hasCurrentData then maxSegmentID + 1
                else if maxSegmentID \<ge> 0 then maxSegmentID + 1 else 0)\<rparr>)"

text \<open>\<^verbatim>\<open>openActiveSegment\<close>: \<^verbatim>\<open>O_APPEND|O_WRONLY|O_CREATE\<close>, then the size from
  \<^verbatim>\<open>Stat\<close>.\<close>

definition openActiveSegment :: "Db \<Rightarrow> Db" where
  "openActiveSegment db =
     (case map_of (files db) CurrentData of
        None \<Rightarrow> db\<lparr>files := AList.update CurrentData [] (files db), out := Some CurrentData, outOffset := 0\<rparr>
      | Some data \<Rightarrow> db\<lparr>out := Some CurrentData, outOffset := length data\<rparr>)"

section \<open>Facts about the codec and the reader\<close>

lemma length_put_le [simp]: "length (put_le k n) = k"
  by (induction k arbitrary: n) auto

lemma get_le_put_le: "get_le (put_le k n) = n mod 256 ^ k"
proof (induction k arbitrary: n)
  case 0 show ?case by simp
next
  case (Suc k)
  have "unat (of_nat n :: byte) = n mod 256" by (simp add: unat_of_nat)
  then show ?case using Suc[of "n div 256"]
    by (simp add: mod_mult2_eq)
qed

lemma uint32_lt [simp]: "uint32 n < 4294967296"
  by (simp add: uint32_def)

lemma uint32_id: "n < 4294967296 \<Longrightarrow> uint32 n = n"
  by (simp add: uint32_def)

lemma length_PutUint32 [simp]: "length (PutUint32 n) = 4"
  by (simp add: PutUint32_def)

lemma length_PutUint64 [simp]: "length (PutUint64 n) = 8"
  by (simp add: PutUint64_def)

lemma Uint32_PutUint32 [simp]: "Uint32 (PutUint32 n @ rest) = uint32 n"
  by (simp add: Uint32_def PutUint32_def get_le_put_le uint32_def)

lemma Uint64_PutUint64 [simp]: "Uint64 (PutUint64 w @ rest) = w"
proof -
  have "unat w < 2 ^ 64" using unsigned_less[of w] by simp
  then have "unat w mod 256 ^ 8 = unat w" by simp
  then show ?thesis by (simp add: Uint64_def PutUint64_def get_le_put_le)
qed

lemma Uint32_PutUint32_only [simp]: "Uint32 (PutUint32 n) = uint32 n"
  using Uint32_PutUint32[of n "[]"] by simp

lemma Uint64_PutUint64_only [simp]: "Uint64 (PutUint64 w) = w"
  using Uint64_PutUint64[of w "[]"] by simp

lemma Uint32_take [simp]: "4 \<le> n \<Longrightarrow> Uint32 (take n b) = Uint32 b"
  by (simp add: Uint32_def min_def)

lemma Uint64_take [simp]: "8 \<le> n \<Longrightarrow> Uint64 (take n b) = Uint64 b"
  by (simp add: Uint64_def min_def)

lemma TypeString_neq_TypeInt64 [simp]: "TypeString \<noteq> TypeInt64" "TypeInt64 \<noteq> TypeString"
  by (simp_all add: TypeString_def TypeInt64_def)

definition payload_len :: "entry \<Rightarrow> nat" where
  "payload_len e = (if valueType e = TypeInt64 then 8 else 4 + length (stringValue e))"

lemma length_valueData_of: "length (valueData_of e) = payload_len e"
  by (simp add: valueData_of_def payload_len_def)

lemma length_Encode: "length (Encode e) = 9 + length (key e) + payload_len e"
  by (simp add: Encode_def Let_def length_valueData_of)

definition decoded_into :: "entry \<Rightarrow> entry \<Rightarrow> entry" where
  "decoded_into e0 e =
     (if valueType e = TypeInt64
      then e0\<lparr>key := key e, valueType := TypeInt64, int64Value := int64Value e\<rparr>
      else e0\<lparr>key := key e, valueType := TypeString, stringValue := stringValue e\<rparr>)"

lemma Encode_parts:
  "Encode e = PutUint32 (9 + length (key e) + payload_len e) @ PutUint32 (length (key e)) @ key e @
     [if valueType e = TypeInt64 then TypeInt64 else TypeString] @ valueData_of e"
  by (simp add: Encode_def Let_def length_valueData_of add.commute add.left_commute)

lemma Decode_Encode:
  assumes "length (Encode e) < 4294967296"
  shows "Decode e0 (Encode e) = Inr (decoded_into e0 e)"
proof -
  define kl where "kl = length (key e)"
  define input where "input = Encode e"
  define vt where "vt = (if valueType e = TypeInt64 then TypeInt64 else TypeString)"
  define vd where "vd = valueData_of e"
  have inp: "input = PutUint32 (9 + kl + payload_len e) @ PutUint32 kl @ key e @ [vt] @ vd"
    by (simp add: input_def Encode_parts kl_def vt_def vd_def)
  have len: "length input = 9 + kl + payload_len e"
    by (simp add: input_def length_Encode kl_def)
  from assms have bound: "9 + kl + payload_len e < 4294967296"
    by (simp add: length_Encode kl_def)
  have pl: "payload_len e \<ge> 4" by (simp add: payload_len_def)
  have keyLen: "Uint32 (take 4 (drop 4 input)) = kl"
    using bound by (simp add: inp uint32_id)
  have u: "uint32 (8 + kl + 1) = 9 + kl" "uint32 (8 + kl) = 8 + kl" "uint32 (8 + kl + 1) = 8 + kl + 1"
     "uint32 (length input) = length input"
    using bound by (simp_all add: uint32_id len)
  have k: "go_slice input 8 (8 + kl) = Some (key e)"
    by (simp add: go_slice_def inp kl_def)
  have t: "input ! (8 + kl) = vt"
    by (simp add: inp nth_append kl_def)
  have d: "drop (8 + kl + 1) input = vd"
    by (simp add: inp kl_def)
  have l9: "\<not> length input < 9" "\<not> length input < 9 + kl" "\<not> length input \<le> 8 + kl"
       "\<not> length input \<le> 9 + kl"
    using pl by (simp_all add: len)
  have d9: "drop (9 + kl) input = vd"
    by (simp add: inp kl_def)
  have step: "Decode e0 input = decode_value (e0\<lparr>key := key e, valueType := vt\<rparr>) vd"
    unfolding Decode_def keyLen Let_def u k t d option.case
    using l9 by (simp add: d9)
  show ?thesis
  proof (cases "valueType e = TypeInt64")
    case True
    then have "vd = PutUint64 (int64Value e)" "vt = TypeInt64"
      by (simp_all add: vd_def valueData_of_def vt_def)
    then show ?thesis
      using True unfolding step input_def[symmetric]
      by (simp add: decoded_into_def decode_value_def)
  next
    case False
    then have vd: "vd = PutUint32 (length (stringValue e)) @ stringValue e" and vt: "vt = TypeString"
      by (simp_all add: vd_def valueData_of_def vt_def)
    from bound False have sl: "4 + length (stringValue e) < 4294967296"
      by (simp add: payload_len_def)
    then have u3: "uint32 (length (stringValue e)) = length (stringValue e)"
      "uint32 (4 + length (stringValue e)) = 4 + length (stringValue e)"
      by (simp_all add: uint32_id)
    have sv: "Uint32 (take 4 vd) = length (stringValue e)"
      by (simp add: vd u3)
    have gs: "go_slice vd 4 (4 + length (stringValue e)) = Some (stringValue e)"
      by (simp add: go_slice_def vd)
    have lv: "length vd = 4 + length (stringValue e)" by (simp add: vd)
    show ?thesis
      using False unfolding step input_def[symmetric] vt decode_value_def Let_def sv u3 gs lv
      by (simp add: decoded_into_def)
  qed
qed

lemma Peek_loop_content: "Peek_loop n r = (r', err) \<Longrightarrow> buffered r' @ rd r' = buffered r @ rd r"
proof (induction n r arbitrary: r' err rule: Peek_loop.induct)
  case (1 n r)
  show ?case
  proof (cases "length (buffered r) < n \<and> length (buffered r) < defaultBufSize")
    case False
    with "1.prems" show ?thesis by (simp add: Peek_loop.simps[of n r])
  next
    case True
    show ?thesis
    proof (cases "rd r = []")
      case True
      with \<open>length (buffered r) < n \<and> length (buffered r) < defaultBufSize\<close> "1.prems"
      show ?thesis by (simp add: Peek_loop.simps[of n r])
    next
      case False
      with True "1.prems" have "Peek_loop n (fst (fill r)) = (r', err)"
        by (simp add: Peek_loop.simps[of n r])
      from "1.IH"[OF True False this] False show ?thesis
        by (simp add: fill_def Let_def)
    qed
  qed
qed

lemma Peek4:
  "Peek 4 r =
     (if 4 \<le> length (buffered r) then (take 4 (buffered r), None, r)
      else if rd r = [] then (buffered r, Some EOF, r)
      else
        let r' = \<lparr>buffered = buffered r @ take (4096 - length (buffered r)) (rd r),
                  rd = drop (4096 - length (buffered r)) (rd r)\<rparr>
        in if 4 \<le> length (buffered r') then (take 4 (buffered r'), None, r')
           else (buffered r', Some EOF, r'))"
proof (cases "4 \<le> length (buffered r)")
  case True
  then show ?thesis by (simp add: Peek_def Peek_loop.simps[of 4 r])
next
  case short: False
  show ?thesis
  proof (cases "rd r = []")
    case True
    with short show ?thesis by (simp add: Peek_def Peek_loop.simps[of 4 r] defaultBufSize_def)
  next
    case False
    define r' where "r' = \<lparr>buffered = buffered r @ take (4096 - length (buffered r)) (rd r),
                  rd = drop (4096 - length (buffered r)) (rd r)\<rparr>"
    have f: "fst (fill r) = r'" using False by (simp add: fill_def Let_def r'_def defaultBufSize_def)
    have step: "Peek_loop 4 r = Peek_loop 4 r'"
      using short False f by (simp add: Peek_loop.simps[of 4 r] defaultBufSize_def)
    show ?thesis
    proof (cases "4 \<le> length (buffered r')")
      case True
      then have "Peek_loop 4 r' = (r', None)" by (simp add: Peek_loop.simps[of 4 r'])
      with step have pl: "Peek_loop 4 r = (r', None)" by simp
      from True short False show ?thesis
        by (simp add: Peek_def pl Let_def r'_def)
    next
      case b: False
      then have "length (rd r) < 4096 - length (buffered r)" by (simp add: r'_def)
      then have "rd r' = []" by (simp add: r'_def)
      with b have "Peek_loop 4 r' = (r', Some EOF)"
        by (simp add: Peek_loop.simps[of 4 r'] defaultBufSize_def)
      with step have pl: "Peek_loop 4 r = (r', Some EOF)" by simp
      from b short False show ?thesis
        by (simp add: Peek_def pl Let_def r'_def)
    qed
  qed
qed

text \<open>The decoder on a fresh reader over \<open>xs\<close>, in closed form.\<close>

lemma DecodeFromReader_NewReader:
  "fst (DecodeFromReader e (NewReader xs)) =
     (if length xs < 4 then (0, Inl EOF)
      else
        let totalSize = Uint32 xs in
        if totalSize < 9 then (0, Inl (InvalidEntrySize totalSize))
        else
          let buf = take totalSize (take 4096 xs) in
          if length buf \<noteq> totalSize then (length buf, Inl (IncompleteRead totalSize (length buf)))
          else (totalSize, Decode e buf))"
proof (cases "length xs < 4")
  case True
  then show ?thesis
    by (cases "xs = []") (auto simp add: DecodeFromReader_def Peek4 NewReader_def Let_def)
next
  case False
  then have ne: "xs \<noteq> []" by auto
  from False have p: "Peek 4 (NewReader xs) = (take 4 xs, None, \<lparr>buffered = take 4096 xs, rd = drop 4096 xs\<rparr>)"
    using ne by (simp add: Peek4 NewReader_def Let_def min_def)
  from False have ne2: "take 4096 xs \<noteq> []" using ne by auto
  show ?thesis
    using False ne2 unfolding DecodeFromReader_def p
    by (simp add: Let_def Read_def)
qed

lemma DecodeFromReader_consumes:
  assumes "DecodeFromReader e r = ((n, Inr e'), r')"
  shows "9 \<le> n \<and> (\<exists>buf. length buf = n \<and> buffered r @ rd r = buf @ buffered r' @ rd r'
            \<and> Uint32 buf = n \<and> Decode e buf = Inr e')"
proof -
  obtain sizeBuf perr r1 where p: "Peek 4 r = (sizeBuf, perr, r1)" by (cases "Peek 4 r") auto
  from assms p have pn: "perr = None"
    by (cases perr) (auto simp: DecodeFromReader_def split: if_splits)
  obtain r0 lerr where l: "Peek_loop 4 r = (r0, lerr)" by (cases "Peek_loop 4 r") auto
  from p pn l have r01: "r0 = r1" and len1: "4 \<le> length (buffered r1)" and sb: "sizeBuf = take 4 (buffered r1)"
    by (auto simp: Peek_def split: if_splits)
  from Peek_loop_content[OF l] r01 have c1: "buffered r1 @ rd r1 = buffered r @ rd r" by simp
  define totalSize where "totalSize = Uint32 sizeBuf"
  from assms p pn have ts: "9 \<le> totalSize"
    by (auto simp: DecodeFromReader_def Let_def totalSize_def split: if_splits)
  from len1 have ne: "buffered r1 \<noteq> []" by auto
  have rd: "Read totalSize r1 = (take totalSize (buffered r1), None, r1\<lparr>buffered := drop totalSize (buffered r1)\<rparr>)"
    using ne by (simp add: Read_def)
  from assms p pn ts rd have
    full: "length (take totalSize (buffered r1)) = totalSize"
    and n: "n = totalSize" and r': "r' = r1\<lparr>buffered := drop totalSize (buffered r1)\<rparr>"
    and dec: "Decode e (take totalSize (buffered r1)) = Inr e'"
    by (auto simp: DecodeFromReader_def Let_def totalSize_def[symmetric] split: if_splits)
  have "buffered r @ rd r = take totalSize (buffered r1) @ buffered r' @ rd r'"
    using c1 r' by (simp flip: append_assoc)
  moreover have "Uint32 (take totalSize (buffered r1)) = totalSize"
    using ts sb by (simp add: totalSize_def)
  ultimately show ?thesis using ts full n dec by blast
qed

section \<open>Index rebuild, reads, writes, rotation and merge\<close>

text \<open>\<^verbatim>\<open>indexSegmentFile\<close>: the loop over the records of one file. A fresh
  \<^verbatim>\<open>var record entry\<close> is decoded in each round.\<close>

function indexSegmentFile_loop :: "int \<Rightarrow> reader \<Rightarrow> nat \<Rightarrow> hashIndex \<Rightarrow> error + hashIndex" where
  "indexSegmentFile_loop sid rdr off idx =
     (case DecodeFromReader entry0 rdr of
        ((n, Inl err), rdr') \<Rightarrow>
          if is_EOF err then (if n \<noteq> 0 then Inl CorruptedSegmentFile else Inr idx)
          else Inl err
      | ((n, Inr record), rdr') \<Rightarrow>
          indexSegmentFile_loop sid rdr' (off + n)
            (idx(key record \<mapsto> \<lparr>segmentID = sid, offset = off\<rparr>)))"
  by pat_completeness auto
termination
proof (relation "measure (\<lambda>(sid, rdr, off, idx). length (buffered rdr @ rd rdr))")
  show "wf (measure (\<lambda>(sid, rdr, off, idx). length (buffered rdr @ rd rdr)))" by simp
next
  fix sid :: int and rdr :: reader and off :: nat and idx :: hashIndex
    and x1 :: "nat \<times> (error + entry)" and rdr' :: reader and n :: nat
    and x2 :: "error + entry" and rcd :: entry
  assume "(x1, rdr') = DecodeFromReader entry0 rdr" "(n, x2) = x1" "x2 = Inr rcd"
  then have "DecodeFromReader entry0 rdr = ((n, Inr rcd), rdr')" by simp
  from DecodeFromReader_consumes[OF this]
  obtain buf where "9 \<le> n" "length buf = n" "buffered rdr @ rd rdr = buf @ buffered rdr' @ rd rdr'"
    by blast
  then have "length (buffered rdr' @ rd rdr') < length (buffered rdr @ rd rdr)"
    by simp
  then show "((sid, rdr', off + n, idx(key rcd \<mapsto> \<lparr>segmentID = sid, offset = off\<rparr>)),
              (sid, rdr, off, idx))
             \<in> measure (\<lambda>(sid, rdr, off, idx). length (buffered rdr @ rd rdr))"
    by simp
qed

declare indexSegmentFile_loop.simps [simp del]

text \<open>\<^verbatim>\<open>indexSegmentFile\<close>: a file that does not exist is skipped.\<close>

definition indexSegmentFile :: "dir \<Rightarrow> fname \<Rightarrow> int \<Rightarrow> hashIndex \<Rightarrow> error + hashIndex" where
  "indexSegmentFile d path sid idx =
     (case map_of d path of
        None \<Rightarrow> Inr idx
      | Some data \<Rightarrow> indexSegmentFile_loop sid (NewReader data) 0 idx)"

text \<open>The loop of \<^verbatim>\<open>rebuildIndex\<close> over the sorted segments.\<close>

fun index_all :: "dir \<Rightarrow> (int \<times> fname) list \<Rightarrow> hashIndex \<Rightarrow> error + hashIndex" where
  "index_all d [] idx = Inr idx"
| "index_all d ((sid, path) # segs) idx =
     (case indexSegmentFile d path sid idx of
        Inl err \<Rightarrow> Inl (FailedToIndexSegment sid err)
      | Inr idx' \<Rightarrow> index_all d segs idx')"

text \<open>\<^verbatim>\<open>rebuildIndex\<close>: the sealed segments and the active one, sorted by id, indexed
  into a new map that replaces the index only when every file was indexed.\<close>

definition rebuildIndex :: "Db \<Rightarrow> error option \<times> Db" where
  "rebuildIndex db =
     (let allSegments =
            map (\<lambda>seg. (id_seg seg, filePath seg)) (segments db) @
            (if out db \<noteq> None then [(activeSegmentID db, CurrentData)] else [])
      in case index_all (files db) (sort_key fst allSegments) Map.empty of
           Inl err \<Rightarrow> (Some err, db)
         | Inr newIndex \<Rightarrow> (None, db\<lparr>index := newIndex\<rparr>))"

text \<open>\<^verbatim>\<open>OpenWithMaxSegmentSize\<close> on a directory; \<^verbatim>\<open>Close\<close> leaves the directory.\<close>

definition OpenWithMaxSegmentSize :: "dir \<Rightarrow> int \<Rightarrow> error + Db" where
  "OpenWithMaxSegmentSize d maxSize =
     (let db = \<lparr>index = Map.empty, maxSegmentSize = maxSize, activeSegmentID = 0, segments = [],
                out = None, outOffset = 0, files = d\<rparr>;
          db1 = loadExistingSegments db;
          db2 = openActiveSegment db1
      in case rebuildIndex db2 of
           (Some err, db3) \<Rightarrow> Inl err
         | (None, db3) \<Rightarrow> Inr db3)"

definition Close :: "Db \<Rightarrow> dir" where
  "Close db = files db"

text \<open>\<^verbatim>\<open>rotateActiveSegment\<close>.\<close>

definition rotateActiveSegment :: "Db \<Rightarrow> error option \<times> Db" where
  "rotateActiveSegment db =
     (if out db = None then (None, db)
      else
        let currentActiveID = activeSegmentID db;
            newPath = SegmentFile currentActiveID
        in case rename CurrentData newPath (files db) of
             None \<Rightarrow> (Some ErrNotExist, db)
           | Some d \<Rightarrow>
               (None,
                openActiveSegment
                  (db\<lparr>files := d,
                      segments := segments db @ [\<lparr>id_seg = currentActiveID, filePath = newPath, readOnly = True\<rparr>],
                      activeSegmentID := activeSegmentID db + 1\<rparr>)))"

text \<open>\<^verbatim>\<open>mergeSegments\<close>. The map \<^verbatim>\<open>keyEntries\<close> is a list of pairs with each key
  once. Go visits a map in an order of its own choice: \<open>order\<close> is that choice, some
  rearrangement of the entries.\<close>

type_synonym keyEntries = "(bytes \<times> entry) list"

function merge_read_loop :: "reader \<Rightarrow> keyEntries \<Rightarrow> error + keyEntries" where
  "merge_read_loop rdr ke =
     (case DecodeFromReader entry0 rdr of
        ((n, Inl err), rdr') \<Rightarrow> if is_EOF err then Inr ke else Inl err
      | ((n, Inr record), rdr') \<Rightarrow> merge_read_loop rdr' (AList.update (key record) record ke))"
  by pat_completeness auto
termination
proof (relation "measure (\<lambda>(rdr, ke). length (buffered rdr @ rd rdr))")
  show "wf (measure (\<lambda>(rdr, ke). length (buffered rdr @ rd rdr)))" by simp
next
  fix rdr :: reader and ke :: keyEntries
    and x1 :: "nat \<times> (error + entry)" and rdr' :: reader and n :: nat
    and x2 :: "error + entry" and rcd :: entry
  assume "(x1, rdr') = DecodeFromReader entry0 rdr" "(n, x2) = x1" "x2 = Inr rcd"
  then have "DecodeFromReader entry0 rdr = ((n, Inr rcd), rdr')" by simp
  from DecodeFromReader_consumes[OF this]
  obtain buf where "9 \<le> n" "length buf = n" "buffered rdr @ rd rdr = buf @ buffered rdr' @ rd rdr'"
    by blast
  then have "length (buffered rdr' @ rd rdr') < length (buffered rdr @ rd rdr)"
    by simp
  then show "((rdr', AList.update (key rcd) rcd ke), (rdr, ke))
             \<in> measure (\<lambda>(rdr, ke). length (buffered rdr @ rd rdr))"
    by simp
qed

declare merge_read_loop.simps [simp del]

fun merge_collect :: "dir \<Rightarrow> segmentInfo list \<Rightarrow> keyEntries \<Rightarrow> error + keyEntries" where
  "merge_collect d [] ke = Inr ke"
| "merge_collect d (seg # segs) ke =
     (case map_of d (filePath seg) of
        None \<Rightarrow> merge_collect d segs ke
      | Some data \<Rightarrow>
          (case merge_read_loop (NewReader data) ke of
             Inl err \<Rightarrow> Inl err
           | Inr ke' \<Rightarrow> merge_collect d segs ke'))"

definition mergeSegments :: "(keyEntries \<Rightarrow> keyEntries) \<Rightarrow> Db \<Rightarrow> error option \<times> Db" where
  "mergeSegments order db =
     (let segmentsToMerge = segments db in
      case merge_collect (files db) segmentsToMerge [] of
        Inl err \<Rightarrow> (Some err, db)
      | Inr keyEntries \<Rightarrow>
          if length keyEntries = 0 then (None, db)
          else
            (case segmentsToMerge of
               [] \<Rightarrow> (Some Panic, db)
             | first # others \<Rightarrow>
                 let merged = concat (map (\<lambda>(k, entryData). Encode entryData) (order keyEntries));
                     d1 = AList.update TempMerge merged (files db);
                     mergedPath = filePath first;
                     d2 = fold (\<lambda>seg d. AList.delete (filePath seg) d) segmentsToMerge d1
                 in case rename TempMerge mergedPath d2 of
                      None \<Rightarrow> (Some ErrNotExist, db\<lparr>files := d2\<rparr>)
                    | Some d3 \<Rightarrow>
                        (case rebuildIndex
                                (db\<lparr>files := d3,
                                    segments := [\<lparr>id_seg = id_seg first, filePath = mergedPath, readOnly = True\<rparr>]\<rparr>) of
                           (Some err, db') \<Rightarrow> (Some (FailedToRebuildIndex err), db')
                         | (None, db') \<Rightarrow> (None, db'))))"

text \<open>\<^verbatim>\<open>handlePut\<close>: the entry that the request's value type selects.\<close>

definition entry_of_request :: "putRequest \<Rightarrow> entry option" where
  "entry_of_request req =
     (if req_valueType req = TypeString then
        Some \<lparr>key = req_key req, valueType = TypeString, stringValue = req_value req, int64Value = 0\<rparr>
      else if req_valueType req = TypeInt64 then
        Some \<lparr>key = req_key req, valueType = TypeInt64, stringValue = [], int64Value = req_int64Value req\<rparr>
      else None)"

definition handlePut :: "write_outcome \<Rightarrow> (keyEntries \<Rightarrow> keyEntries) \<Rightarrow> Db \<Rightarrow> putRequest \<Rightarrow> error option \<times> Db" where
  "handlePut wr order db req =
     (if req_key req = merge_key then mergeSegments order db
      else
        (case (if int (outOffset db) \<ge> maxSegmentSize db then rotateActiveSegment db else (None, db)) of
           (Some err, db1) \<Rightarrow> (Some err, db1)
         | (None, db1) \<Rightarrow>
             (case entry_of_request req of
                None \<Rightarrow> (Some (UnsupportedValueType (req_valueType req)), db1)
              | Some e \<Rightarrow>
                  let currentOffset = outOffset db1;
                      data = Encode e
                  in case write_file wr CurrentData data (files db1) of
                       (n, Some err, d) \<Rightarrow> (Some err, db1\<lparr>files := d\<rparr>)
                     | (n, None, d) \<Rightarrow>
                         (None,
                          db1\<lparr>files := d,
                              index := (index db1)(req_key req \<mapsto>
                                         \<lparr>segmentID = activeSegmentID db1, offset = currentOffset\<rparr>),
                              outOffset := outOffset db1 + n\<rparr>))))"

text \<open>\<^verbatim>\<open>Put\<close> and \<^verbatim>\<open>PutInt64\<close> send the request to the writer and wait for its
  reply: the writer runs \<^verbatim>\<open>handlePut\<close> on it.\<close>

definition Put :: "write_outcome \<Rightarrow> (keyEntries \<Rightarrow> keyEntries) \<Rightarrow> Db \<Rightarrow> bytes \<Rightarrow> bytes \<Rightarrow> error option \<times> Db" where
  "Put wr order db k v =
     handlePut wr order db \<lparr>req_key = k, req_value = v, req_int64Value = 0, req_valueType = TypeString\<rparr>"

definition PutInt64 :: "write_outcome \<Rightarrow> (keyEntries \<Rightarrow> keyEntries) \<Rightarrow> Db \<Rightarrow> bytes \<Rightarrow> 64 word \<Rightarrow> error option \<times> Db" where
  "PutInt64 wr order db k v =
     handlePut wr order db \<lparr>req_key = k, req_value = [], req_int64Value = v, req_valueType = TypeInt64\<rparr>"

text \<open>\<^verbatim>\<open>readEntryFromFile\<close>: seek to the offset, a fresh reader, one record.\<close>

definition readEntryFromFile :: "bytes \<Rightarrow> nat \<Rightarrow> error + entry" where
  "readEntryFromFile data off =
     (case DecodeFromReader entry0 (NewReader (drop off data)) of
        ((n, Inl err), rdr) \<Rightarrow> Inl err
      | ((n, Inr record), rdr) \<Rightarrow> Inr record)"

text \<open>The part that \<^verbatim>\<open>Get\<close> and \<^verbatim>\<open>GetInt64\<close> have word for word in common: the
  index entry, the file it names, the record read there.\<close>

definition readIndexed :: "Db \<Rightarrow> bytes \<Rightarrow> error + entry" where
  "readIndexed db k =
     (case index db k of
        None \<Rightarrow> Inl ErrNotFound
      | Some indexEntry \<Rightarrow>
          let path = (if segmentID indexEntry = activeSegmentID db then CurrentData
                      else SegmentFile (segmentID indexEntry))
          in case map_of (files db) path of
               None \<Rightarrow> Inl ErrNotExist
             | Some data \<Rightarrow> readEntryFromFile data (offset indexEntry))"

definition Get :: "Db \<Rightarrow> bytes \<Rightarrow> error + bytes" where
  "Get db k =
     (case readIndexed db k of
        Inl err \<Rightarrow> Inl err
      | Inr record \<Rightarrow>
          if valueType record \<noteq> TypeString then Inl ErrTypeMismatch
          else Inr (stringValue record))"

definition GetInt64 :: "Db \<Rightarrow> bytes \<Rightarrow> error + 64 word" where
  "GetInt64 db k =
     (case readIndexed db k of
        Inl err \<Rightarrow> Inl err
      | Inr record \<Rightarrow>
          if valueType record \<noteq> TypeInt64 then Inl ErrTypeMismatch
          else Inr (int64Value record))"

section \<open>Invariants of the engine state\<close>

text \<open>The ids of the \<^verbatim>\<open>segment-<id>\<close> files of a directory.\<close>

definition segment_file_ids :: "dir \<Rightarrow> int list" where
  "segment_file_ids d = concat (map (\<lambda>(f, data). case f of SegmentFile i \<Rightarrow> [i] | _ \<Rightarrow> []) d)"

text \<open>
  Segment integrity: the writer's handle is on \<^verbatim>\<open>current-data\<close> and that file
  exists (it is the one active segment); every entry of the sealed list has an id below
  the active id and the path \<^verbatim>\<open>segment-<id>\<close>; every \<^verbatim>\<open>segment-<id>\<close> file of
  the directory has an id below the active id.
\<close>

definition segments_ok :: "Db \<Rightarrow> bool" where
  "segments_ok db \<longleftrightarrow>
     out db = Some CurrentData \<and> map_of (files db) CurrentData \<noteq> None
     \<and> (\<forall>seg\<in>set (segments db). id_seg seg < activeSegmentID db \<and> filePath seg = SegmentFile (id_seg seg))
     \<and> (\<forall>i\<in>set (segment_file_ids (files db)). i < activeSegmentID db)"

text \<open>The writer's offset counter is the length of the active file.\<close>

definition offset_ok :: "Db \<Rightarrow> bool" where
  "offset_ok db \<longleftrightarrow> (case map_of (files db) CurrentData of None \<Rightarrow> False | Some cur \<Rightarrow> outOffset db = length cur)"

definition db_ok :: "Db \<Rightarrow> bool" where
  "db_ok db \<longleftrightarrow> segments_ok db \<and> offset_ok db"

text \<open>The engine just opened on an empty directory with \<open>maxSegmentSize = 100\<close>.\<close>

definition example_db :: Db where
  "example_db = \<lparr>index = Map.empty, maxSegmentSize = 100, activeSegmentID = 0, segments = [],
                 out = Some CurrentData, outOffset = 0, files = [(CurrentData, [])]\<rparr>"

text \<open>Example requests and records.\<close>

definition example_req :: putRequest where
  "example_req = \<lparr>req_key = [107], req_value = [118, 49], req_int64Value = 0, req_valueType = TypeString\<rparr>"



definition example_entry :: entry where
  "example_entry = \<lparr>key = [107], valueType = TypeString, stringValue = [118, 49], int64Value = 0\<rparr>"

text \<open>What \<^verbatim>\<open>entry.Decode\<close> checks, in the terms of the record layout: the key
  length that the input declares, the string length that it declares after the type
  byte, and whether the input holds the key, the type byte, at least one byte of value
  data and, for the two known value types, the declared payload.\<close>

definition declared_keyLen :: "bytes \<Rightarrow> nat" where
  "declared_keyLen input = Uint32 (take 4 (drop 4 input))"

definition declared_strLen :: "bytes \<Rightarrow> nat" where
  "declared_strLen input = Uint32 (take 4 (drop (9 + declared_keyLen input) input))"

definition record_fits :: "bytes \<Rightarrow> bool" where
  "record_fits input \<longleftrightarrow>
     9 + declared_keyLen input < length input
     \<and> (input ! (8 + declared_keyLen input) = TypeString \<longrightarrow>
          13 + declared_keyLen input + declared_strLen input \<le> length input)
     \<and> (input ! (8 + declared_keyLen input) = TypeInt64 \<longrightarrow>
          17 + declared_keyLen input \<le> length input)"

text \<open>Example inputs of the decoder: a well-formed int64 record whose total-size field is
  0; a record of the unknown type 7 that declares 100 string bytes and holds one; the
  nine bytes of a header and a type byte.\<close>

definition size_zero_input :: bytes where
  "size_zero_input = [0,0,0,0, 0,0,0,0, 2, 1,0,0,0,0,0,0,0]"

definition lenient_input :: bytes where
  "lenient_input = [14,0,0,0, 0,0,0,0, 7, 100,0,0,0, 65]"

definition short_input :: bytes where
  "short_input = [9,0,0,0, 0,0,0,0, 1]"

text \<open>A string record whose encoding is one byte longer than the reader's buffer.\<close>

definition big_entry :: entry where
  "big_entry = \<lparr>key = [], valueType = TypeString, stringValue = replicate 4084 0, int64Value = 0\<rparr>"

text \<open>\<^verbatim>\<open>defaultMaxSegmentSize\<close>, and the records and states of two example runs.\<close>

definition defaultMaxSegmentSize :: int where
  "defaultMaxSegmentSize = 10 * 1024 * 1024"

definition rec_a :: entry where
  "rec_a = \<lparr>key = [97], valueType = TypeString, stringValue = replicate 4000 120, int64Value = 0\<rparr>"

definition rec_b :: entry where
  "rec_b = \<lparr>key = [98], valueType = TypeString, stringValue = replicate 100 121, int64Value = 0\<rparr>"

definition rec_c :: entry where
  "rec_c = \<lparr>key = [99], valueType = TypeInt64, stringValue = [], int64Value = 7\<rparr>"

definition db_a :: Db where
  "db_a = \<lparr>index = [[97] \<mapsto> \<lparr>segmentID = 0, offset = 0\<rparr>], maxSegmentSize = defaultMaxSegmentSize,
           activeSegmentID = 0, segments = [], out = Some CurrentData,
           outOffset = length (Encode rec_a), files = [(CurrentData, Encode rec_a)]\<rparr>"

definition db_ab :: Db where
  "db_ab = \<lparr>index = [[97] \<mapsto> \<lparr>segmentID = 0, offset = 0\<rparr>,
                    [98] \<mapsto> \<lparr>segmentID = 0, offset = length (Encode rec_a)\<rparr>],
           maxSegmentSize = defaultMaxSegmentSize,
           activeSegmentID = 0, segments = [], out = Some CurrentData,
           outOffset = length (Encode rec_a) + length (Encode rec_b),
           files = [(CurrentData, Encode rec_a @ Encode rec_b)]\<rparr>"

definition seg0 :: segmentInfo where
  "seg0 = \<lparr>id_seg = 0, filePath = SegmentFile 0, readOnly = True\<rparr>"

definition seg1 :: segmentInfo where
  "seg1 = \<lparr>id_seg = 1, filePath = SegmentFile 1, readOnly = True\<rparr>"

definition db_s1 :: Db where
  "db_s1 = \<lparr>index = [[97] \<mapsto> \<lparr>segmentID = 0, offset = 0\<rparr>], maxSegmentSize = 100,
           activeSegmentID = 0, segments = [], out = Some CurrentData,
           outOffset = length (Encode rec_a), files = [(CurrentData, Encode rec_a)]\<rparr>"

definition db_s2 :: Db where
  "db_s2 = \<lparr>index = [[97] \<mapsto> \<lparr>segmentID = 0, offset = 0\<rparr>, [98] \<mapsto> \<lparr>segmentID = 1, offset = 0\<rparr>],
           maxSegmentSize = 100, activeSegmentID = 1, segments = [seg0], out = Some CurrentData,
           outOffset = length (Encode rec_b),
           files = [(SegmentFile 0, Encode rec_a), (CurrentData, Encode rec_b)]\<rparr>"

definition db_s3 :: Db where
  "db_s3 = \<lparr>index = [[97] \<mapsto> \<lparr>segmentID = 0, offset = 0\<rparr>, [98] \<mapsto> \<lparr>segmentID = 1, offset = 0\<rparr>,
                    [99] \<mapsto> \<lparr>segmentID = 2, offset = 0\<rparr>],
           maxSegmentSize = 100, activeSegmentID = 2, segments = [seg0, seg1], out = Some CurrentData,
           outOffset = length (Encode rec_c),
           files = [(SegmentFile 0, Encode rec_a), (SegmentFile 1, Encode rec_b), (CurrentData, Encode rec_c)]\<rparr>"

definition db_merged :: "bytes \<Rightarrow> Db" where
  "db_merged merged = db_s3\<lparr>files := [(CurrentData, Encode rec_c), (SegmentFile 0, merged)], segments := [seg0]\<rparr>"

text \<open>A record as the engine writes it: a string record has the int64 field zero, an
  int64 record has the string field empty.\<close>

definition canonical :: "entry \<Rightarrow> bool" where
  "canonical r \<longleftrightarrow>
     (valueType r = TypeString \<and> int64Value r = 0) \<or> (valueType r = TypeInt64 \<and> stringValue r = [])"

section \<open>Facts about the engine\<close>

lemma map_of_append_file:
  "map_of (append_file f data d) =
     (map_of d)(f \<mapsto> (case map_of d f of None \<Rightarrow> data | Some old \<Rightarrow> old @ data))"
  by (simp add: append_file_def update_conv' split: option.splits)

lemma map_of_rename:
  "rename old new d = Some d' \<Longrightarrow> map_of d old = Some data \<Longrightarrow>
     map_of d' = ((map_of d)(old := None))(new \<mapsto> data)"
  by (auto simp: rename_def update_conv' delete_conv' split: option.splits)

lemma rename_Some: "map_of d old = Some data \<Longrightarrow> \<exists>d'. rename old new d = Some d'"
  by (simp add: rename_def)

lemma map_of_fold_delete:
  "map_of (fold (\<lambda>seg d. AList.delete (filePath seg) d) segs d) f =
     (if f \<in> filePath ` set segs then None else map_of d f)"
  by (induction segs arbitrary: d) (auto simp: delete_conv')

lemma openActiveSegment_props:
  "out (openActiveSegment db) = Some CurrentData"
  "map_of (files (openActiveSegment db)) CurrentData =
     Some (case map_of (files db) CurrentData of None \<Rightarrow> [] | Some data \<Rightarrow> data)"
  "f \<noteq> CurrentData \<Longrightarrow> map_of (files (openActiveSegment db)) f = map_of (files db) f"
  "outOffset (openActiveSegment db) =
     length (case map_of (files db) CurrentData of None \<Rightarrow> [] | Some data \<Rightarrow> data)"
  "index (openActiveSegment db) = index db"
  "segments (openActiveSegment db) = segments db"
  "activeSegmentID (openActiveSegment db) = activeSegmentID db"
  "maxSegmentSize (openActiveSegment db) = maxSegmentSize db"
  by (auto simp: openActiveSegment_def update_conv' split: option.splits)

lemma rotateActiveSegment_ok:
  assumes "out db \<noteq> None" and "map_of (files db) CurrentData = Some cur"
  shows "\<exists>db'. rotateActiveSegment db = (None, db')
           \<and> map_of (files db') = (map_of (files db))(SegmentFile (activeSegmentID db) \<mapsto> cur, CurrentData \<mapsto> [])
           \<and> segments db' = segments db @
                 [\<lparr>id_seg = activeSegmentID db, filePath = SegmentFile (activeSegmentID db), readOnly = True\<rparr>]
           \<and> activeSegmentID db' = activeSegmentID db + 1
           \<and> outOffset db' = 0 \<and> index db' = index db \<and> out db' = Some CurrentData
           \<and> maxSegmentSize db' = maxSegmentSize db"
proof -
  from rename_Some[OF assms(2)] obtain d where
    d: "rename CurrentData (SegmentFile (activeSegmentID db)) (files db) = Some d" by blast
  from map_of_rename[OF d assms(2)] have md:
    "map_of d = ((map_of (files db))(CurrentData := None))(SegmentFile (activeSegmentID db) \<mapsto> cur)" .
  then have nc: "map_of d CurrentData = None" by simp
  define db1 where "db1 = db\<lparr>files := d,
      segments := segments db @ [\<lparr>id_seg = activeSegmentID db, filePath = SegmentFile (activeSegmentID db), readOnly = True\<rparr>],
      activeSegmentID := activeSegmentID db + 1\<rparr>"
  have r: "rotateActiveSegment db = (None, openActiveSegment db1)"
    using assms(1) d by (auto simp add: rotateActiveSegment_def Let_def db1_def)
  have f1: "map_of (files db1) CurrentData = None" using nc by (simp add: db1_def)
  have "map_of (files (openActiveSegment db1)) =
          (map_of (files db))(SegmentFile (activeSegmentID db) \<mapsto> cur, CurrentData \<mapsto> [])"
  proof
    fix f show "map_of (files (openActiveSegment db1)) f =
          ((map_of (files db))(SegmentFile (activeSegmentID db) \<mapsto> cur, CurrentData \<mapsto> [])) f"
      using openActiveSegment_props(2)[of db1] openActiveSegment_props(3)[of f db1] f1 md
      by (cases "f = CurrentData") (auto simp: db1_def)
  qed
  moreover have "outOffset (openActiveSegment db1) = 0"
    using f1 by (simp add: openActiveSegment_props)
  ultimately show ?thesis
    unfolding r by (simp add: openActiveSegment_props) (simp add: db1_def)
qed

lemma DecodeFromReader_empty: "DecodeFromReader e (NewReader []) = ((0, Inl EOF), NewReader [])"
  by (simp add: DecodeFromReader_def Peek4 NewReader_def)

lemma indexSegmentFile_loop_empty: "indexSegmentFile_loop sid (NewReader []) off idx = Inr idx"
  by (simp add: indexSegmentFile_loop.simps[of sid "NewReader []"] DecodeFromReader_empty)

lemma Open_empty: "OpenWithMaxSegmentSize [] 100 = Inr example_db"
  by (simp add: OpenWithMaxSegmentSize_def loadExistingSegments_def openActiveSegment_def
      rebuildIndex_def indexSegmentFile_def indexSegmentFile_loop_empty example_db_def)



lemma segment_file_ids_iff: "i \<in> set (segment_file_ids d) \<longleftrightarrow> map_of d (SegmentFile i) \<noteq> None"
proof (induction d)
  case Nil show ?case by (simp add: segment_file_ids_def)
next
  case (Cons p d)
  obtain f data where p: "p = (f, data)" by (cases p)
  from Cons show ?case by (cases f) (auto simp: segment_file_ids_def p)
qed

lemma segments_ok_iff:
  "segments_ok db \<longleftrightarrow>
     out db = Some CurrentData \<and> map_of (files db) CurrentData \<noteq> None
     \<and> (\<forall>seg\<in>set (segments db). id_seg seg < activeSegmentID db \<and> filePath seg = SegmentFile (id_seg seg))
     \<and> (\<forall>i. map_of (files db) (SegmentFile i) \<noteq> None \<longrightarrow> i < activeSegmentID db)"
  by (auto simp add: segments_ok_def segment_file_ids_iff)

lemma fold_load_step:
  "fold load_step names (infos, mx, has) = (infos', mx', has') \<Longrightarrow>
     mx \<le> mx' \<and> (\<forall>i. SegmentFile i \<in> set names \<longrightarrow> i \<le> mx')
     \<and> set infos' = set infos \<union> (\<lambda>i. \<lparr>id_seg = i, filePath = SegmentFile i, readOnly = True\<rparr>) ` {i. SegmentFile i \<in> set names}"
proof (induction names arbitrary: infos mx has)
  case Nil then show ?case by simp
next
  case (Cons f names)
  show ?case
  proof (cases f)
    case CurrentData
    with Cons.prems have "fold load_step names (infos, mx, True) = (infos', mx', has')" by simp
    from Cons.IH[OF this] CurrentData show ?thesis by auto
  next
    case TempMerge
    with Cons.prems have "fold load_step names (infos, mx, has) = (infos', mx', has')" by simp
    from Cons.IH[OF this] TempMerge show ?thesis by auto
  next
    case (SegmentFile j)
    with Cons.prems have "fold load_step names
        (infos @ [\<lparr>id_seg = j, filePath = SegmentFile j, readOnly = True\<rparr>], (if j > mx then j else mx), has)
        = (infos', mx', has')" by simp
    from Cons.IH[OF this] SegmentFile show ?thesis by (auto split: if_splits)
  qed
qed

lemma rebuildIndex_fields:
  "files (snd (rebuildIndex db)) = files db"
  "segments (snd (rebuildIndex db)) = segments db"
  "activeSegmentID (snd (rebuildIndex db)) = activeSegmentID db"
  "out (snd (rebuildIndex db)) = out db"
  "outOffset (snd (rebuildIndex db)) = outOffset db"
  "maxSegmentSize (snd (rebuildIndex db)) = maxSegmentSize db"
  by (auto simp: rebuildIndex_def Let_def split: sum.splits)

lemma segments_ok_cong:
  "files db' = files db \<Longrightarrow> segments db' = segments db \<Longrightarrow> activeSegmentID db' = activeSegmentID db
     \<Longrightarrow> out db' = out db \<Longrightarrow> segments_ok db' = segments_ok db"
  by (simp add: segments_ok_def)

lemma segments_ok_rebuildIndex: "segments_ok (snd (rebuildIndex db)) = segments_ok db"
  by (rule segments_ok_cong) (simp_all add: rebuildIndex_fields)

lemma map_of_names: "map_of d f = Some y \<Longrightarrow> f \<in> fst ` set d"
  by (force dest: map_of_SomeD)

lemma segments_ok_Open:
  assumes "OpenWithMaxSegmentSize d m = Inr db"
  shows "segments_ok db"
proof -
  define db0 where "db0 = \<lparr>index = Map.empty, maxSegmentSize = m, activeSegmentID = 0, segments = [],
                out = None, outOffset = 0, files = d\<rparr>"
  define db1 where "db1 = loadExistingSegments db0"
  define db2 where "db2 = openActiveSegment db1"
  from assms have db: "db = snd (rebuildIndex db2)"
    by (auto simp: OpenWithMaxSegmentSize_def Let_def db0_def db1_def db2_def split: prod.splits option.splits)
  obtain infos mx has where f: "fold load_step (map fst d) ([], -1, False) = (infos, mx, has)"
    by (cases "fold load_step (map fst d) ([], -1, False)") auto
  from fold_load_step[OF f] have mx: "-1 \<le> mx" "\<forall>i. SegmentFile i \<in> set (map fst d) \<longrightarrow> i \<le> mx"
    and infos: "set infos = (\<lambda>i. \<lparr>id_seg = i, filePath = SegmentFile i, readOnly = True\<rparr>) ` {i. SegmentFile i \<in> set (map fst d)}"
    by auto
  define act where "act = (if has then mx + 1 else if mx \<ge> 0 then mx + 1 else 0)"
  have db1: "db1 = db0\<lparr>segments := sort_key id_seg infos, activeSegmentID := act\<rparr>"
    using f by (simp add: db1_def loadExistingSegments_def db0_def act_def)
  have lt: "\<forall>i. SegmentFile i \<in> set (map fst d) \<longrightarrow> i < act"
    using mx by (auto simp: act_def) 
  have lt': "\<And>i y. map_of d (SegmentFile i) = Some y \<Longrightarrow> i < act"
  proof -
    fix i y assume "map_of d (SegmentFile i) = Some y"
    from map_of_names[OF this] have "SegmentFile i \<in> set (map fst d)" by simp
    with lt show "i < act" by blast
  qed
  have lt'': "\<And>i b. (SegmentFile i, b) \<in> set d \<Longrightarrow> i < act"
  proof -
    fix i b assume "(SegmentFile i, b) \<in> set d"
    then have "SegmentFile i \<in> set (map fst d)" by force
    with lt show "i < act" by blast
  qed
  have 1: "files db1 = d" "activeSegmentID db1 = act" "set (segments db1) = set infos"
    by (simp_all add: db1 db0_def)
  have "segments_ok db2"
    unfolding segments_ok_iff db2_def
    using 1 lt' lt'' infos
    by (auto simp: openActiveSegment_props split: option.splits)
  then show ?thesis by (simp add: db segments_ok_rebuildIndex)
qed

lemma segments_ok_rotate:
  assumes "segments_ok db"
  shows "fst (rotateActiveSegment db) = None \<and> segments_ok (snd (rotateActiveSegment db))"
proof -
  from assms obtain cur where c: "map_of (files db) CurrentData = Some cur" and o: "out db \<noteq> None"
    by (auto simp: segments_ok_iff)
  from rotateActiveSegment_ok[OF o c] obtain db' where
    r: "rotateActiveSegment db = (None, db')"
    and p: "map_of (files db') = (map_of (files db))(SegmentFile (activeSegmentID db) \<mapsto> cur, CurrentData \<mapsto> [])"
     "segments db' = segments db @
                 [\<lparr>id_seg = activeSegmentID db, filePath = SegmentFile (activeSegmentID db), readOnly = True\<rparr>]"
     "activeSegmentID db' = activeSegmentID db + 1" "out db' = Some CurrentData"
    by blast
  have "segments_ok db'"
    using assms unfolding segments_ok_iff p by (auto split: if_splits)
  with r show ?thesis by simp
qed

lemma rebuildIndex_snd_cases:
  "snd (rebuildIndex db) = db \<or> (\<exists>idx. snd (rebuildIndex db) = db\<lparr>index := idx\<rparr>)"
  by (auto simp: rebuildIndex_def Let_def split: sum.splits)

lemma mergeSegments_result:
  assumes wf: "\<forall>seg\<in>set (segments db). filePath seg = SegmentFile (id_seg seg)"
  shows "snd (mergeSegments order db) = db \<or>
         (\<exists>first others merged d3 db3.
            segments db = first # others
            \<and> map_of d3 = (\<lambda>f. if f = filePath first then Some merged
                               else if f = TempMerge \<or> f \<in> filePath ` set (segments db) then None
                               else map_of (files db) f)
            \<and> db3 = db\<lparr>files := d3,
                       segments := [\<lparr>id_seg = id_seg first, filePath = filePath first, readOnly = True\<rparr>]\<rparr>
            \<and> (snd (mergeSegments order db) = db3 \<or> (\<exists>idx. snd (mergeSegments order db) = db3\<lparr>index := idx\<rparr>)))"
proof (cases "merge_collect (files db) (segments db) []")
  case (Inl err)
  then show ?thesis by (simp add: mergeSegments_def)
next
  case (Inr ke)
  show ?thesis
  proof (cases "ke = []")
    case True
    with Inr show ?thesis by (simp add: mergeSegments_def)
  next
    case ne: False
    show ?thesis
    proof (cases "segments db")
      case Nil
      with Inr ne show ?thesis by (simp add: mergeSegments_def)
    next
      case (Cons first others)
      define merged where "merged = concat (map (\<lambda>(k, entryData). Encode entryData) (order ke))"
      define d1 where "d1 = AList.update TempMerge merged (files db)"
      define d2 where "d2 = fold (\<lambda>seg d. AList.delete (filePath seg) d) (segments db) d1"
      from wf have nt: "TempMerge \<notin> filePath ` set (segments db)" by force
      have m2: "map_of d2 = (\<lambda>f. if f \<in> filePath ` set (segments db) then None else map_of d1 f)"
        by (rule ext) (simp add: d2_def map_of_fold_delete)
      then have t2: "map_of d2 TempMerge = Some merged"
        using nt by (simp add: d1_def update_conv')
      from rename_Some[OF t2] obtain d3 where d3: "rename TempMerge (filePath first) d2 = Some d3"
        by blast
      from map_of_rename[OF d3 t2]
      have m3: "map_of d3 = (\<lambda>f. if f = filePath first then Some merged
                               else if f = TempMerge \<or> f \<in> filePath ` set (segments db) then None
                               else map_of (files db) f)"
        by (auto simp: m2 d1_def update_conv' fun_eq_iff)
      define db3 where "db3 = db\<lparr>files := d3,
                       segments := [\<lparr>id_seg = id_seg first, filePath = filePath first, readOnly = True\<rparr>]\<rparr>"
      have d2': "fold (\<lambda>seg d. AList.delete (filePath seg) d) others (AList.delete (filePath first) d1) = d2"
        by (simp add: d2_def Cons)
      have "mergeSegments order db =
              (case rebuildIndex db3 of
                 (Some err, db') \<Rightarrow> (Some (FailedToRebuildIndex err), db')
               | (None, db') \<Rightarrow> (None, db'))"
        unfolding mergeSegments_def Let_def Inr
        using ne Cons d3
        by (simp add: merged_def[symmetric] d1_def[symmetric] d2' db3_def[symmetric])
      then have "snd (mergeSegments order db) = snd (rebuildIndex db3)"
        by (simp split: prod.splits option.splits)
      with rebuildIndex_snd_cases[of db3]
      have "snd (mergeSegments order db) = db3 \<or> (\<exists>idx. snd (mergeSegments order db) = db3\<lparr>index := idx\<rparr>)"
        by simp
      with Cons m3 db3_def show ?thesis by blast
    qed
  qed
qed

lemma segments_ok_merge:
  assumes "segments_ok db"
  shows "segments_ok (snd (mergeSegments order db))"
proof -
  from assms have wf: "\<forall>seg\<in>set (segments db). filePath seg = SegmentFile (id_seg seg)"
    by (simp add: segments_ok_iff)
  from mergeSegments_result[OF wf, of order]
  consider (same) "snd (mergeSegments order db) = db"
    | (merged) first others merged d3 db3 where "segments db = first # others"
       "map_of d3 = (\<lambda>f. if f = filePath first then Some merged
                               else if f = TempMerge \<or> f \<in> filePath ` set (segments db) then None
                               else map_of (files db) f)"
       "db3 = db\<lparr>files := d3,
                       segments := [\<lparr>id_seg = id_seg first, filePath = filePath first, readOnly = True\<rparr>]\<rparr>"
       "snd (mergeSegments order db) = db3 \<or> (\<exists>idx. snd (mergeSegments order db) = db3\<lparr>index := idx\<rparr>)"
    by blast
  then show ?thesis
  proof cases
    case same
    with assms show ?thesis by simp
  next
    case (merged first others merged d3 db3)
    note s = merged(1) and m3 = merged(2) and db3 = merged(3) and r = merged(4)
    from assms s have f: "id_seg first < activeSegmentID db" "filePath first = SegmentFile (id_seg first)"
      by (auto simp: segments_ok_iff)
    have "segments_ok db3"
      using assms f wf unfolding segments_ok_iff db3
      by (auto simp: m3 split: if_splits)
    moreover have "segments_ok (snd (mergeSegments order db)) = segments_ok db3"
      using r by (auto simp: segments_ok_def)
    ultimately show ?thesis by simp
  qed
qed

lemma handlePut_WriteOk:
  assumes k: "req_key req \<noteq> merge_key" and e: "entry_of_request req = Some e"
    and o: "out db \<noteq> None" and c: "map_of (files db) CurrentData = Some cur"
  shows "\<exists>db'. handlePut WriteOk order db req = (None, db')
     \<and> map_of (files db') =
          (if maxSegmentSize db \<le> int (outOffset db)
           then (map_of (files db))(SegmentFile (activeSegmentID db) \<mapsto> cur, CurrentData \<mapsto> Encode e)
           else (map_of (files db))(CurrentData \<mapsto> cur @ Encode e))
     \<and> index db' = (index db)(req_key req \<mapsto>
            \<lparr>segmentID = (if maxSegmentSize db \<le> int (outOffset db) then activeSegmentID db + 1 else activeSegmentID db),
             offset = (if maxSegmentSize db \<le> int (outOffset db) then 0 else outOffset db)\<rparr>)
     \<and> outOffset db' = (if maxSegmentSize db \<le> int (outOffset db) then 0 else outOffset db) + length (Encode e)
     \<and> activeSegmentID db' = (if maxSegmentSize db \<le> int (outOffset db) then activeSegmentID db + 1 else activeSegmentID db)
     \<and> segments db' =
          (if maxSegmentSize db \<le> int (outOffset db)
           then segments db @ [\<lparr>id_seg = activeSegmentID db, filePath = SegmentFile (activeSegmentID db), readOnly = True\<rparr>]
           else segments db)
     \<and> out db' = (if maxSegmentSize db \<le> int (outOffset db) then Some CurrentData else out db)
     \<and> maxSegmentSize db' = maxSegmentSize db"
proof (cases "maxSegmentSize db \<le> int (outOffset db)")
  case True
  from rotateActiveSegment_ok[OF o c] obtain db1 where
    r: "rotateActiveSegment db = (None, db1)"
    and p: "map_of (files db1) = (map_of (files db))(SegmentFile (activeSegmentID db) \<mapsto> cur, CurrentData \<mapsto> [])"
     "segments db1 = segments db @
                 [\<lparr>id_seg = activeSegmentID db, filePath = SegmentFile (activeSegmentID db), readOnly = True\<rparr>]"
     "activeSegmentID db1 = activeSegmentID db + 1" "outOffset db1 = 0" "index db1 = index db"
     "out db1 = Some CurrentData" "maxSegmentSize db1 = maxSegmentSize db"
    by blast
  have "handlePut WriteOk order db req =
     (None, db1\<lparr>files := append_file CurrentData (Encode e) (files db1),
                index := (index db1)(req_key req \<mapsto> \<lparr>segmentID = activeSegmentID db1, offset = outOffset db1\<rparr>),
                outOffset := outOffset db1 + length (Encode e)\<rparr>)"
    using k e True r by (simp add: handlePut_def write_file_def Let_def)
  then show ?thesis
    using True p by (simp add: map_of_append_file)
next
  case False
  have "handlePut WriteOk order db req =
     (None, db\<lparr>files := append_file CurrentData (Encode e) (files db),
                index := (index db)(req_key req \<mapsto> \<lparr>segmentID = activeSegmentID db, offset = outOffset db\<rparr>),
                outOffset := outOffset db + length (Encode e)\<rparr>)"
    using k e False by (simp add: handlePut_def write_file_def Let_def)
  then show ?thesis
    using False c by (simp add: map_of_append_file)
qed

lemma segments_ok_append:
  assumes "segments_ok db"
  shows "segments_ok (db\<lparr>files := append_file CurrentData data (files db)\<rparr>)"
  using assms by (auto simp: segments_ok_iff map_of_append_file)

lemma segments_ok_handlePut:
  assumes "segments_ok db"
  shows "segments_ok (snd (handlePut wr order db req))"
proof (cases "req_key req = merge_key")
  case True
  then show ?thesis using segments_ok_merge[OF assms] by (simp add: handlePut_def)
next
  case False
  define r where "r = (if int (outOffset db) \<ge> maxSegmentSize db then rotateActiveSegment db else (None, db))"
  have r1: "fst r = None" and r2: "segments_ok (snd r)"
    using segments_ok_rotate[OF assms] assms by (auto simp: r_def)
  obtain db1 where r: "r = (None, db1)" using r1 by (cases r) auto
  with r2 have ok1: "segments_ok db1" by simp
  have 1: "\<And>d. segments_ok (db1\<lparr>files := append_file CurrentData d (files db1)\<rparr>)"
    by (rule segments_ok_append[OF ok1])
  have 2: "\<And>d i n. segments_ok (db1\<lparr>files := append_file CurrentData d (files db1), index := i, outOffset := n\<rparr>)"
    using 1 by (simp add: segments_ok_def)
  show ?thesis
    using False ok1 1 2 unfolding handlePut_def r_def[symmetric] r
    by (cases wr; cases "entry_of_request req") (simp_all add: write_file_def Let_def)
qed

lemma db_ok_handlePut:
  assumes ok: "db_ok db" and k: "req_key req \<noteq> merge_key"
    and r: "handlePut WriteOk order db req = (None, db')"
  shows "db_ok db'"
proof -
  from segments_ok_handlePut[of db WriteOk order req] ok r have s: "segments_ok db'"
    by (simp add: db_ok_def)
  from ok obtain cur where c: "map_of (files db) CurrentData = Some cur" and off: "outOffset db = length cur"
    and o: "out db \<noteq> None"
    by (auto simp: db_ok_def offset_ok_def segments_ok_def split: option.splits)
  from r k obtain e where e: "entry_of_request req = Some e"
    by (cases "entry_of_request req") (auto simp: handlePut_def Let_def split: prod.splits option.splits if_splits)
  from handlePut_WriteOk[OF k e o c, of order] r off have "offset_ok db'"
    by (auto simp: offset_ok_def split: if_splits)
  with s show ?thesis by (simp add: db_ok_def)
qed

lemma example_db_ok: "db_ok example_db"
  by (simp add: db_ok_def segments_ok_def offset_ok_def example_db_def segment_file_ids_def)

lemma mergeSegments_keeps_active:
  assumes "segments_ok db"
  shows "map_of (files (snd (mergeSegments order db))) CurrentData = map_of (files db) CurrentData
       \<and> outOffset (snd (mergeSegments order db)) = outOffset db"
proof -
  from assms have wf: "\<forall>seg\<in>set (segments db). filePath seg = SegmentFile (id_seg seg)"
    by (simp add: segments_ok_iff)
  from mergeSegments_result[OF wf, of order]
  consider (same) "snd (mergeSegments order db) = db"
    | (merged) first others merged d3 db3 where "segments db = first # others"
       "map_of d3 = (\<lambda>f. if f = filePath first then Some merged
                               else if f = TempMerge \<or> f \<in> filePath ` set (segments db) then None
                               else map_of (files db) f)"
       "db3 = db\<lparr>files := d3,
                       segments := [\<lparr>id_seg = id_seg first, filePath = filePath first, readOnly = True\<rparr>]\<rparr>"
       "snd (mergeSegments order db) = db3 \<or> (\<exists>idx. snd (mergeSegments order db) = db3\<lparr>index := idx\<rparr>)"
    by blast
  then show ?thesis
  proof cases
    case same
    then show ?thesis by simp
  next
    case (merged first others merged d3 db3)
    from wf have "CurrentData \<notin> filePath ` set (segments db)" by force
    moreover from wf merged(1) have "filePath first \<noteq> CurrentData" by auto
    ultimately have "map_of d3 CurrentData = map_of (files db) CurrentData"
      by (simp add: merged(2))
    with merged(3,4) show ?thesis by auto
  qed
qed

lemma put_le_4:
  "put_le 4 n = [of_nat n, of_nat (n div 256), of_nat (n div 256 div 256), of_nat (n div 256 div 256 div 256)]"
proof -
  have e: "(4::nat) = Suc (Suc (Suc (Suc 0)))" by simp
  show ?thesis unfolding e by simp
qed

lemma put_le_8:
  "put_le 8 n = [of_nat n, of_nat (n div 256), of_nat (n div 256 div 256), of_nat (n div 256 div 256 div 256),
     of_nat (n div 256 div 256 div 256 div 256), of_nat (n div 256 div 256 div 256 div 256 div 256),
     of_nat (n div 256 div 256 div 256 div 256 div 256 div 256),
     of_nat (n div 256 div 256 div 256 div 256 div 256 div 256 div 256)]"
proof -
  have e: "(8::nat) = Suc (Suc (Suc (Suc (Suc (Suc (Suc (Suc 0)))))))" by simp
  show ?thesis unfolding e by simp
qed

lemmas PutUint32_bytes = PutUint32_def put_le_4
lemmas PutUint64_bytes = PutUint64_def put_le_8

lemma Uint32_bytes:
  "Uint32 (a # b # c # d # rest) = unat a + 256 * (unat b + 256 * (unat c + 256 * unat d))"
  by (simp add: Uint32_def)

lemmas eval_simps = PutUint32_bytes PutUint64_bytes Uint32_bytes uint32_def TypeString_def TypeInt64_def
  Encode_def valueData_of_def Let_def

lemma t1: "Encode \<lparr>key = [107], valueType = TypeString, stringValue = [118, 49], int64Value = 0\<rparr> = [16,0,0,0,1,0,0,0,107,1,2,0,0,0,118,49]"
  by (simp add: eval_simps)

lemma t2: "fst (handlePut WriteOk id example_db example_req) = None"
  by (simp add: handlePut_def example_db_def example_req_def merge_key_def entry_of_request_def write_file_def eval_simps)

lemma t4: "map_of (files (snd (handlePut WriteOk id example_db example_req))) CurrentData = Some [16,0,0,0,1,0,0,0,107,1,2,0,0,0,118,49]"
  by (simp add: handlePut_def example_db_def example_req_def merge_key_def entry_of_request_def write_file_def append_file_def eval_simps)

lemma readEntryFromFile_alt:
  "readEntryFromFile data off = snd (fst (DecodeFromReader entry0 (NewReader (drop off data))))"
  by (simp add: readEntryFromFile_def split: prod.splits sum.splits)

lemma Uint32_append: "4 \<le> length xs \<Longrightarrow> Uint32 (xs @ ys) = Uint32 xs"
  by (simp add: Uint32_def)

lemma decode_fresh_Encode:
  assumes "length (Encode x) \<le> 4096"
  shows "fst (DecodeFromReader e (NewReader (Encode x @ rest))) = (length (Encode x), Inr (decoded_into e x))"
proof -
  have l: "13 \<le> length (Encode x)" by (simp add: length_Encode payload_len_def)
  have "Uint32 (Encode x @ rest) = uint32 (9 + length (key x) + payload_len x)"
    by (simp add: Encode_parts[of x])
  then have u: "Uint32 (Encode x @ rest) = length (Encode x)"
    using assms by (simp add: length_Encode uint32_id)
  have t: "take (length (Encode x)) (take 4096 (Encode x @ rest)) = Encode x"
    using assms by (simp add: take_take min_def)
  have d: "Decode e (Encode x) = Inr (decoded_into e x)"
    using assms by (intro Decode_Encode) simp
  show ?thesis
    unfolding DecodeFromReader_NewReader Let_def u t
    using l d by simp
qed

lemma decode_fresh_append:
  assumes "snd (fst (DecodeFromReader e (NewReader xs))) = Inr r"
  shows "snd (fst (DecodeFromReader e (NewReader (xs @ ys)))) = Inr r"
proof -
  from assms have l: "4 \<le> length xs"
    by (auto simp: DecodeFromReader_NewReader split: if_splits)
  define n where "n = Uint32 xs"
  from assms l have n9: "9 \<le> n" and full: "length (take n (take 4096 xs)) = n"
    and dec: "Decode e (take n (take 4096 xs)) = Inr r"
    by (auto simp: DecodeFromReader_NewReader Let_def n_def[symmetric] split: if_splits)
  from full have "n \<le> 4096" "n \<le> length xs" by (auto simp: min_def split: if_splits)
  then have t: "take n (take 4096 (xs @ ys)) = take n (take 4096 xs)"
    by (simp add: take_take min_def)
  show ?thesis
    unfolding DecodeFromReader_NewReader Let_def Uint32_append[OF l] n_def[symmetric] t
    using l n9 full dec by simp
qed

lemma readEntryFromFile_append:
  assumes "readEntryFromFile data off = Inr r"
  shows "readEntryFromFile (data @ extra) off = Inr r"
proof (cases "off \<le> length data")
  case True
  then have "drop off (data @ extra) = drop off data @ extra" by simp
  with assms show ?thesis
    by (simp add: readEntryFromFile_alt decode_fresh_append)
next
  case False
  then have "drop off data = []" by simp
  with assms show ?thesis
    by (simp add: readEntryFromFile_alt DecodeFromReader_NewReader)
qed

lemma readEntryFromFile_written:
  assumes "length (Encode x) \<le> 4096"
  shows "readEntryFromFile (pre @ Encode x) (length pre) = Inr (decoded_into entry0 x)"
  using decode_fresh_Encode[OF assms, of entry0 "[]"] by (simp add: readEntryFromFile_alt)

lemma decoded_into_request:
  "entry_of_request req = Some e \<Longrightarrow> decoded_into entry0 e = e"
  by (auto simp: entry_of_request_def decoded_into_def entry0_def split: if_splits)

text \<open>A successful put is read back at once.\<close>

lemma readIndexed_after_put:
  assumes ok: "db_ok db" and k: "req_key req \<noteq> merge_key" and e: "entry_of_request req = Some e"
    and sz: "length (Encode e) \<le> 4096"
    and r: "handlePut WriteOk order db req = (None, db')"
  shows "readIndexed db' (req_key req) = Inr e"
proof -
  from ok obtain cur where c: "map_of (files db) CurrentData = Some cur" and off: "outOffset db = length cur"
    and o: "out db \<noteq> None"
    by (auto simp: db_ok_def offset_ok_def segments_ok_def split: option.splits)
  from handlePut_WriteOk[OF k e o c, of order] r
  have f: "map_of (files db') =
          (if maxSegmentSize db \<le> int (outOffset db)
           then (map_of (files db))(SegmentFile (activeSegmentID db) \<mapsto> cur, CurrentData \<mapsto> Encode e)
           else (map_of (files db))(CurrentData \<mapsto> cur @ Encode e))"
    and i: "index db' = (index db)(req_key req \<mapsto>
            \<lparr>segmentID = (if maxSegmentSize db \<le> int (outOffset db) then activeSegmentID db + 1 else activeSegmentID db),
             offset = (if maxSegmentSize db \<le> int (outOffset db) then 0 else outOffset db)\<rparr>)"
    and a: "activeSegmentID db' = (if maxSegmentSize db \<le> int (outOffset db) then activeSegmentID db + 1 else activeSegmentID db)"
    by auto
  have w: "readEntryFromFile (cur @ Encode e) (length cur) = Inr e"
       "readEntryFromFile (Encode e) 0 = Inr e"
    using readEntryFromFile_written[OF sz, of cur] readEntryFromFile_written[OF sz, of "[]"]
      decoded_into_request[OF e] by simp_all
  show ?thesis
    unfolding readIndexed_def i a f using w off by (simp add: Let_def)
qed

text \<open>A record that can be read stays readable, with the same content, over a
  successful put of another key.\<close>

lemma readIndexed_other_put:
  assumes ok: "db_ok db" and k: "req_key req \<noteq> merge_key" and ne: "req_key req \<noteq> k'"
    and r: "handlePut WriteOk order db req = (None, db')"
    and g: "readIndexed db k' = Inr rcd"
  shows "readIndexed db' k' = Inr rcd"
proof -
  from ok obtain cur where c: "map_of (files db) CurrentData = Some cur" and off: "outOffset db = length cur"
    and o: "out db \<noteq> None"
    by (auto simp: db_ok_def offset_ok_def segments_ok_def split: option.splits)
  from ok have ids: "\<And>i. map_of (files db) (SegmentFile i) \<noteq> None \<Longrightarrow> i < activeSegmentID db"
    by (simp add: db_ok_def segments_ok_iff)
  from r k obtain e where e: "entry_of_request req = Some e"
    by (cases "entry_of_request req") (auto simp: handlePut_def Let_def split: prod.splits option.splits if_splits)
  from handlePut_WriteOk[OF k e o c, of order] r
  have f: "map_of (files db') =
          (if maxSegmentSize db \<le> int (outOffset db)
           then (map_of (files db))(SegmentFile (activeSegmentID db) \<mapsto> cur, CurrentData \<mapsto> Encode e)
           else (map_of (files db))(CurrentData \<mapsto> cur @ Encode e))"
    and i: "index db' = (index db)(req_key req \<mapsto>
            \<lparr>segmentID = (if maxSegmentSize db \<le> int (outOffset db) then activeSegmentID db + 1 else activeSegmentID db),
             offset = (if maxSegmentSize db \<le> int (outOffset db) then 0 else outOffset db)\<rparr>)"
    and a: "activeSegmentID db' = (if maxSegmentSize db \<le> int (outOffset db) then activeSegmentID db + 1 else activeSegmentID db)"
    by auto
  from g obtain ie where ie: "index db k' = Some ie"
    by (auto simp: readIndexed_def split: option.splits)
  from ne i ie have ie': "index db' k' = Some ie" by simp
  show ?thesis
  proof (cases "segmentID ie = activeSegmentID db")
    case True
    with g ie c have rd: "readEntryFromFile cur (offset ie) = Inr rcd"
      by (simp add: readIndexed_def)
    from readEntryFromFile_append[OF rd] have rd': "readEntryFromFile (cur @ Encode e) (offset ie) = Inr rcd" .
    show ?thesis
      unfolding readIndexed_def ie' a f using True rd rd' by (simp add: Let_def)
  next
    case False
    with g ie obtain data where d: "map_of (files db) (SegmentFile (segmentID ie)) = Some data"
      and rd: "readEntryFromFile data (offset ie) = Inr rcd"
      by (auto simp: readIndexed_def Let_def split: option.splits)
    from ids[of "segmentID ie"] d have lt: "segmentID ie < activeSegmentID db" by simp
    show ?thesis
      unfolding readIndexed_def ie' a f using False lt d rd by (simp add: Let_def)
  qed
qed


lemma handlePut_succeeds:
  assumes "db_ok db" and "req_key req \<noteq> merge_key" and "entry_of_request req = Some e"
  shows "\<exists>db'. handlePut WriteOk order db req = (None, db')"
proof -
  from assms(1) obtain cur where c: "map_of (files db) CurrentData = Some cur" and o: "out db \<noteq> None"
    by (auto simp: db_ok_def offset_ok_def segments_ok_def split: option.splits)
  from handlePut_WriteOk[OF assms(2,3) o c, of order] show ?thesis by blast
qed


lemma Uint32_4: "Uint32 [a, b, c, d] = unat a + 256 * (unat b + 256 * (unat c + 256 * unat d))"
  by (simp add: Uint32_def)

lemma Uint64_bytes: "Uint64 (a # b # c # d # e # f # g # h # rest) =
   of_nat (unat a + 256 * (unat b + 256 * (unat c + 256 * (unat d + 256 * (unat e + 256 * (unat f + 256 * (unat g + 256 * unat h)))))))"
  by (simp add: Uint64_def)

lemma decode_value_fits:
  assumes w: "Uint32 vd + 4 < 4294967296" and ne: "vd \<noteq> []"
  shows "((valueType e = TypeString \<longrightarrow> 4 + Uint32 vd \<le> length vd)
          \<and> (valueType e = TypeInt64 \<longrightarrow> 8 \<le> length vd) \<longrightarrow> (\<exists>e'. decode_value e vd = Inr e'))
       \<and> (\<not> ((valueType e = TypeString \<longrightarrow> 4 + Uint32 vd \<le> length vd)
          \<and> (valueType e = TypeInt64 \<longrightarrow> 8 \<le> length vd)) \<longrightarrow>
             (\<exists>err. decode_value e vd = Inl err \<and> is_CorruptRecord err))"
proof -
  have u: "uint32 (4 + Uint32 vd) = 4 + Uint32 vd"
    using w by (simp add: uint32_id)
  show ?thesis
  proof (cases "valueType e = TypeString")
    case True
    then show ?thesis
      by (auto simp: decode_value_def Let_def u go_slice_def)
  next
    case ns: False
    show ?thesis
    proof (cases "valueType e = TypeInt64")
      case True
      with ns show ?thesis by (auto simp: decode_value_def)
    next
      case False
      with ns show ?thesis
        by (auto simp: decode_value_def decode_unknown_def Let_def u go_slice_def)
    qed
  qed
qed

lemma length_big_entry: "length (Encode big_entry) = 4097"
  by (simp add: length_Encode payload_len_def big_entry_def)

lemma indexSegmentFile_loop_err:
  "fst (DecodeFromReader entry0 rdr) = (n, Inl err) \<Longrightarrow>
     indexSegmentFile_loop sid rdr off idx =
       (if is_EOF err then (if n \<noteq> 0 then Inl CorruptedSegmentFile else Inr idx) else Inl err)"
  by (cases "DecodeFromReader entry0 rdr") (simp add: indexSegmentFile_loop.simps[of sid rdr])

lemma indexSegmentFile_loop_ok:
  "DecodeFromReader entry0 rdr = ((n, Inr rcd), rdr') \<Longrightarrow>
     indexSegmentFile_loop sid rdr off idx =
       indexSegmentFile_loop sid rdr' (off + n) (idx(key rcd \<mapsto> \<lparr>segmentID = sid, offset = off\<rparr>))"
  by (simp add: indexSegmentFile_loop.simps[of sid rdr])

lemma merge_read_loop_err:
  "fst (DecodeFromReader entry0 rdr) = (n, Inl err) \<Longrightarrow>
     merge_read_loop rdr ke = (if is_EOF err then Inr ke else Inl err)"
  by (cases "DecodeFromReader entry0 rdr") (simp add: merge_read_loop.simps[of rdr])

lemma merge_read_loop_ok:
  "DecodeFromReader entry0 rdr = ((n, Inr rcd), rdr') \<Longrightarrow>
     merge_read_loop rdr ke = merge_read_loop rdr' (AList.update (key rcd) rcd ke)"
  by (simp add: merge_read_loop.simps[of rdr])

lemma DecodeFromReader_fresh_full:
  assumes "length (Encode x) \<le> 4096"
  shows "DecodeFromReader e (NewReader (Encode x @ rest)) =
           ((length (Encode x), Inr (decoded_into e x)),
            \<lparr>buffered = drop (length (Encode x)) (take 4096 (Encode x @ rest)),
             rd = drop 4096 (Encode x @ rest)\<rparr>)"
proof -
  define xs where "xs = Encode x @ rest"
  have l: "13 \<le> length (Encode x)" by (simp add: length_Encode payload_len_def)
  then have l4: "4 \<le> length xs" "xs \<noteq> []" by (auto simp: xs_def)
  have "Uint32 (Encode x @ rest) = uint32 (9 + length (key x) + payload_len x)"
    by (simp add: Encode_parts[of x])
  then have u: "Uint32 xs = length (Encode x)"
    using assms by (simp add: length_Encode uint32_id xs_def)
  have p: "Peek 4 (NewReader xs) = (take 4 xs, None, \<lparr>buffered = take 4096 xs, rd = drop 4096 xs\<rparr>)"
    using l4 by (simp add: Peek4 NewReader_def Let_def min_def)
  have t: "take (length (Encode x)) (take 4096 xs) = Encode x"
    using assms by (simp add: take_take min_def xs_def)
  have ne: "take 4096 xs \<noteq> []" using l4 by auto
  have d: "Decode e (Encode x) = Inr (decoded_into e x)"
    using assms by (intro Decode_Encode) simp
  have "DecodeFromReader e (NewReader xs) =
           ((length (Encode x), Inr (decoded_into e x)),
            \<lparr>buffered = drop (length (Encode x)) (take 4096 xs), rd = drop 4096 xs\<rparr>)"
  proof -
    have lx: "length (Encode x) \<le> length xs" by (simp add: xs_def)
    have t': "take (length (Encode x)) xs = Encode x" by (simp add: xs_def)
    show ?thesis
      unfolding DecodeFromReader_def p
      using l l4 ne d assms lx by (simp add: Let_def Read_def u t' min_def)
  qed
  then show ?thesis by (simp add: xs_def)
qed

lemma DecodeFromReader_buffered_short:
  assumes "4 \<le> length (buffered r)" and "9 \<le> Uint32 (buffered r)"
    and "length (buffered r) < Uint32 (buffered r)"
  shows "fst (DecodeFromReader e r) =
           (length (buffered r), Inl (IncompleteRead (Uint32 (buffered r)) (length (buffered r))))"
proof -
  from assms(1) have ne: "buffered r \<noteq> []" by auto
  have p: "Peek 4 r = (take 4 (buffered r), None, r)" using assms(1) by (simp add: Peek4)
  show ?thesis
    unfolding DecodeFromReader_def p using assms ne by (simp add: Let_def Read_def)
qed

text \<open>Two records in one file, the second one across the end of the reader's first
  buffer: the index loop stops with an incomplete read.\<close>

lemma indexSegmentFile_loop_straddle:
  assumes a: "length (Encode a) \<le> 4092" and b: "4096 < length (Encode a) + length (Encode b)"
    and c: "length (Encode b) < 4294967296"
  shows "indexSegmentFile_loop sid (NewReader (Encode a @ Encode b)) 0 idx =
           Inl (IncompleteRead (length (Encode b)) (4096 - length (Encode a)))"
proof -
  define r1 where "r1 = \<lparr>buffered = drop (length (Encode a)) (take 4096 (Encode a @ Encode b)),
             rd = drop 4096 (Encode a @ Encode b)\<rparr>"
  from a have a': "length (Encode a) \<le> 4096" by simp
  note s1 = DecodeFromReader_fresh_full[OF a', of entry0 "Encode b", folded r1_def]
  have bf: "buffered r1 = take (4096 - length (Encode a)) (Encode b)"
    using a by (simp add: r1_def)
  have lb: "length (buffered r1) = 4096 - length (Encode a)"
    using a b by (simp add: bf)
  have l4: "4 \<le> length (buffered r1)" using a lb by simp
  have "Uint32 (Encode b) = uint32 (9 + length (key b) + payload_len b)"
    using Uint32_PutUint32[of _ "PutUint32 (length (key b)) @ key b @
     [if valueType b = TypeInt64 then TypeInt64 else TypeString] @ valueData_of b"]
    by (simp add: Encode_parts[of b])
  then have ub: "Uint32 (Encode b) = length (Encode b)"
    using c by (simp add: length_Encode uint32_id)
  have k4: "4 \<le> 4096 - length (Encode a)" using a by simp
  have u: "Uint32 (buffered r1) = length (Encode b)"
    unfolding bf using Uint32_take[OF k4, of "Encode b"] ub by simp
  have l9: "9 \<le> Uint32 (buffered r1)" unfolding u by (simp add: length_Encode)
  have sh: "length (buffered r1) < Uint32 (buffered r1)" unfolding u lb using a b by linarith
  from DecodeFromReader_buffered_short[OF l4 l9 sh, of entry0]
  have s2: "fst (DecodeFromReader entry0 r1) =
      (4096 - length (Encode a), Inl (IncompleteRead (length (Encode b)) (4096 - length (Encode a))))"
    by (simp add: u lb)
  show ?thesis
    unfolding indexSegmentFile_loop_ok[OF s1] indexSegmentFile_loop_err[OF s2]
    by simp
qed

lemma length_rec_a: "length (Encode rec_a) = 4014"
  by (simp add: length_Encode payload_len_def rec_a_def)

lemma length_rec_b: "length (Encode rec_b) = 114"
  by (simp add: length_Encode payload_len_def rec_b_def)

lemma Open_empty_any:
  "OpenWithMaxSegmentSize [] m =
     Inr \<lparr>index = Map.empty, maxSegmentSize = m, activeSegmentID = 0, segments = [],
          out = Some CurrentData, outOffset = 0, files = [(CurrentData, [])]\<rparr>"
  by (simp add: OpenWithMaxSegmentSize_def loadExistingSegments_def openActiveSegment_def
      rebuildIndex_def indexSegmentFile_def indexSegmentFile_loop_empty)

lemma put_a: "Put WriteOk id \<lparr>index = Map.empty, maxSegmentSize = defaultMaxSegmentSize, activeSegmentID = 0, segments = [],
          out = Some CurrentData, outOffset = 0, files = [(CurrentData, [])]\<rparr> [97] (replicate 4000 120) = (None, db_a)"
  by (simp add: Put_def handlePut_def merge_key_def entry_of_request_def write_file_def append_file_def
      Let_def db_a_def rec_a_def[symmetric] defaultMaxSegmentSize_def)

lemma put_b: "Put WriteOk id db_a [98] (replicate 100 121) = (None, db_ab)"
  by (simp add: Put_def handlePut_def merge_key_def entry_of_request_def write_file_def append_file_def
      Let_def db_a_def db_ab_def rec_b_def[symmetric] defaultMaxSegmentSize_def length_rec_a)

lemma get_a: "Get db_ab [97] = Inr (replicate 4000 120)"
proof -
  have "readEntryFromFile (Encode rec_a @ Encode rec_b) 0 = Inr rec_a"
    using decode_fresh_Encode[of rec_a entry0 "Encode rec_b"]
    by (simp add: readEntryFromFile_alt length_rec_a) (simp add: decoded_into_def rec_a_def entry0_def)
  then show ?thesis
    by (simp add: Get_def readIndexed_def db_ab_def) (simp add: rec_a_def)
qed

lemma get_b: "Get db_ab [98] = Inr (replicate 100 121)"
proof -
  have "readEntryFromFile (Encode rec_a @ Encode rec_b) (length (Encode rec_a)) = Inr rec_b"
    using readEntryFromFile_written[of rec_b "Encode rec_a"]
    by (simp add: length_rec_b) (simp add: decoded_into_def rec_b_def entry0_def)
  then show ?thesis
    by (simp add: Get_def readIndexed_def db_ab_def) (simp add: rec_b_def)
qed

lemma reopen_ab:
  "OpenWithMaxSegmentSize (Close db_ab) defaultMaxSegmentSize =
     Inl (FailedToIndexSegment 0 (IncompleteRead 114 82))"
proof -
  have "indexSegmentFile_loop 0 (NewReader (Encode rec_a @ Encode rec_b)) 0 Map.empty =
          Inl (IncompleteRead 114 82)"
    using indexSegmentFile_loop_straddle[of rec_a rec_b 0 Map.empty]
    by (simp add: length_rec_a length_rec_b)
  then show ?thesis
    by (simp add: OpenWithMaxSegmentSize_def Close_def db_ab_def loadExistingSegments_def openActiveSegment_def
      rebuildIndex_def indexSegmentFile_def)
qed

lemma length_rec_c: "length (Encode rec_c) = 18"
  by (simp add: length_Encode payload_len_def rec_c_def)

lemmas put_eval = Put_def PutInt64_def handlePut_def merge_key_def entry_of_request_def write_file_def
  append_file_def rotateActiveSegment_def rename_def openActiveSegment_def Let_def

lemma put_s1: "Put WriteOk id example_db [97] (replicate 4000 120) = (None, db_s1)"
  by (simp add: put_eval example_db_def db_s1_def rec_a_def[symmetric])

lemma put_s2: "Put WriteOk id db_s1 [98] (replicate 100 121) = (None, db_s2)"
  by (simp add: put_eval db_s1_def db_s2_def seg0_def rec_b_def[symmetric] length_rec_a)

lemma put_s3: "PutInt64 WriteOk id db_s2 [99] 7 = (None, db_s3)"
  by (simp add: put_eval db_s2_def db_s3_def seg0_def seg1_def rec_c_def[symmetric] length_rec_b)

lemma read_single:
  assumes "length (Encode x) \<le> 4096"
  shows "readEntryFromFile (Encode x) 0 = Inr (decoded_into entry0 x)"
  using readEntryFromFile_written[OF assms, of "[]"] by simp

lemma decoded_rec [simp]:
  "decoded_into entry0 rec_a = rec_a" "decoded_into entry0 rec_b = rec_b" "decoded_into entry0 rec_c = rec_c"
  by (simp_all add: decoded_into_def entry0_def rec_a_def rec_b_def rec_c_def)

lemma gets_s3:
  "Get db_s3 [97] = Inr (replicate 4000 120)" "Get db_s3 [98] = Inr (replicate 100 121)"
  "GetInt64 db_s3 [99] = Inr 7"
proof -
  have "readEntryFromFile (Encode rec_a) 0 = Inr rec_a" "readEntryFromFile (Encode rec_b) 0 = Inr rec_b"
    "readEntryFromFile (Encode rec_c) 0 = Inr rec_c"
    using read_single[of rec_a] read_single[of rec_b] read_single[of rec_c]
    by (simp_all add: length_rec_a length_rec_b length_rec_c)
  then show "Get db_s3 [97] = Inr (replicate 4000 120)" "Get db_s3 [98] = Inr (replicate 100 121)"
    "GetInt64 db_s3 [99] = Inr 7"
    by (simp_all add: Get_def GetInt64_def readIndexed_def db_s3_def)
       (simp_all add: rec_a_def rec_b_def rec_c_def)
qed

lemma merge_read_single:
  assumes "length (Encode x) \<le> 4096"
  shows "merge_read_loop (NewReader (Encode x)) ke = Inr (AList.update (key x) (decoded_into entry0 x) ke)"
proof -
  from DecodeFromReader_fresh_full[OF assms, of entry0 "[]"] assms
  have s1: "DecodeFromReader entry0 (NewReader (Encode x)) =
     ((length (Encode x), Inr (decoded_into entry0 x)), NewReader [])"
    by (simp add: NewReader_def)
  have k: "key (decoded_into entry0 x) = key x" by (simp add: decoded_into_def)
  have s2: "fst (DecodeFromReader entry0 (NewReader [])) = (0, Inl EOF)"
    by (simp add: DecodeFromReader_empty)
  show ?thesis
    unfolding merge_read_loop_ok[OF s1] merge_read_loop_err[OF s2] by (simp add: k)
qed

lemma collect_s3: "merge_collect (files db_s3) (segments db_s3) [] = Inr [([97], rec_a), ([98], rec_b)]"
  using merge_read_single[of rec_a] merge_read_single[of rec_b]
  by (simp add: db_s3_def seg0_def seg1_def length_rec_a length_rec_b) (simp add: rec_a_def rec_b_def)

lemma merge_id_s3:
  "mergeSegments id db_s3 =
     (Some (FailedToRebuildIndex (FailedToIndexSegment 0 (IncompleteRead 114 82))),
      db_merged (Encode rec_a @ Encode rec_b))"
proof -
  have i: "indexSegmentFile_loop 0 (NewReader (Encode rec_a @ Encode rec_b)) 0 Map.empty =
          Inl (IncompleteRead 114 82)"
    using indexSegmentFile_loop_straddle[of rec_a rec_b 0 Map.empty]
    by (simp add: length_rec_a length_rec_b)
  have r: "rebuildIndex (db_merged (Encode rec_a @ Encode rec_b)) =
     (Some (FailedToIndexSegment 0 (IncompleteRead 114 82)), db_merged (Encode rec_a @ Encode rec_b))"
    by (simp add: rebuildIndex_def db_merged_def db_s3_def seg0_def indexSegmentFile_def i)
  have f: "files db_s3 = [(SegmentFile 0, Encode rec_a), (SegmentFile 1, Encode rec_b), (CurrentData, Encode rec_c)]"
    "segments db_s3 = [seg0, seg1]"
    by (simp_all add: db_s3_def)
  show ?thesis
    unfolding mergeSegments_def Let_def collect_s3
    by (simp add: f seg0_def[symmetric] rename_def)
       (simp add: seg0_def seg1_def db_merged_def[symmetric] r
          db_merged_def[of "Encode rec_a @ Encode rec_b", unfolded seg0_def, symmetric])
qed

lemma merge_rev_s3:
  "mergeSegments rev db_s3 =
     (Some (FailedToRebuildIndex (FailedToIndexSegment 0 (IncompleteRead 4014 3982))),
      db_merged (Encode rec_b @ Encode rec_a))"
proof -
  have i: "indexSegmentFile_loop 0 (NewReader (Encode rec_b @ Encode rec_a)) 0 Map.empty =
          Inl (IncompleteRead 4014 3982)"
    using indexSegmentFile_loop_straddle[of rec_b rec_a 0 Map.empty]
    by (simp add: length_rec_a length_rec_b)
  have r: "rebuildIndex (db_merged (Encode rec_b @ Encode rec_a)) =
     (Some (FailedToIndexSegment 0 (IncompleteRead 4014 3982)), db_merged (Encode rec_b @ Encode rec_a))"
    by (simp add: rebuildIndex_def db_merged_def db_s3_def seg0_def indexSegmentFile_def i)
  have f: "files db_s3 = [(SegmentFile 0, Encode rec_a), (SegmentFile 1, Encode rec_b), (CurrentData, Encode rec_c)]"
    "segments db_s3 = [seg0, seg1]"
    by (simp_all add: db_s3_def)
  show ?thesis
    unfolding mergeSegments_def Let_def collect_s3
    by (simp add: f seg0_def[symmetric] rename_def)
       (simp add: seg0_def seg1_def db_merged_def[symmetric] r
          db_merged_def[of "Encode rec_b @ Encode rec_a", unfolded seg0_def, symmetric])
qed

lemma get_b_merged: "Get (db_merged merged) [98] = Inl ErrNotExist"
  by (simp add: Get_def readIndexed_def db_merged_def db_s3_def)

lemma get_a_merged_rev: "Get (db_merged (Encode rec_b @ Encode rec_a)) [97] = Inr (replicate 100 121)"
proof -
  have "readEntryFromFile (Encode rec_b @ Encode rec_a) 0 = Inr rec_b"
    using decode_fresh_Encode[of rec_b entry0 "Encode rec_a"]
    by (simp add: readEntryFromFile_alt length_rec_b)
  then show ?thesis
    by (simp add: Get_def readIndexed_def db_merged_def db_s3_def) (simp add: rec_b_def)
qed

lemma decoded_into_canonical: "canonical r \<Longrightarrow> decoded_into entry0 r = r"
  by (auto simp: canonical_def decoded_into_def entry0_def)

lemma offset_ok_Open:
  assumes "OpenWithMaxSegmentSize d m = Inr db"
  shows "offset_ok db"
proof -
  define db0 where "db0 = \<lparr>index = Map.empty, maxSegmentSize = m, activeSegmentID = 0, segments = [],
                out = None, outOffset = 0, files = d\<rparr>"
  define db2 where "db2 = openActiveSegment (loadExistingSegments db0)"
  from assms have db: "db = snd (rebuildIndex db2)"
    by (auto simp: OpenWithMaxSegmentSize_def Let_def db0_def db2_def split: prod.splits option.splits)
  have "offset_ok db2"
    by (simp add: offset_ok_def db2_def openActiveSegment_props split: option.splits)
  then show ?thesis
    by (simp add: db offset_ok_def rebuildIndex_fields split: option.splits)
qed

section \<open>The claims\<close>






text \<open>
  C3. Decoding the encoding of a string or int64 record from a slice gives the record
  back, but decoding it from a stream does not when the encoding is longer than the
  reader's 4096-byte buffer: for the string record with the empty key and a value of
  4084 bytes (4097 encoded bytes) \<open>DecodeFromReader\<close> returns 4096 and the
  incomplete-read error instead of 4097 and the record.
\<close>

theorem stream_decode_big_record:
  "length (Encode big_entry) = 4097
   \<and> Decode entry0 (Encode big_entry) = Inr big_entry
   \<and> fst (DecodeFromReader entry0 (NewReader (Encode big_entry))) = (4096, Inl (IncompleteRead 4097 4096))"
proof -
  have u: "Uint32 (Encode big_entry) = 4097"
    by (simp add: Encode_parts[of big_entry] uint32_id) (simp add: big_entry_def payload_len_def uint32_id)
  have d: "Decode entry0 (Encode big_entry) = Inr big_entry"
    by (simp add: Decode_Encode length_big_entry) (simp add: decoded_into_def big_entry_def entry0_def)
  show ?thesis
    using d by (simp add: DecodeFromReader_NewReader u Let_def length_big_entry)
qed

text \<open>
  C4, as amended. \<open>Decode\<close> never reads the total-size field. For an input shorter than
  \<open>2^32\<close> bytes whose declared lengths do not overflow the 32-bit sums, it succeeds
  exactly when the input holds the declared key, the type byte, at least one byte of
  value data and, for \<open>STRING\<close> and \<open>INT64\<close>, the declared payload (any other type
  tag is decoded leniently and succeeds); otherwise it fails with a \<open>CorruptRecord\<close>
  error.
\<close>

theorem decode_validation:
  assumes len: "length input < 4294967296"
    and kw: "declared_keyLen input + 9 < 4294967296"
    and sw: "declared_strLen input + 4 < 4294967296"
  shows "(record_fits input \<longrightarrow> (\<exists>e'. Decode e input = Inr e'))
       \<and> (\<not> record_fits input \<longrightarrow> (\<exists>err. Decode e input = Inl err \<and> is_CorruptRecord err))"
proof -
  define kl where "kl = declared_keyLen input"
  have keyLen: "Uint32 (take 4 (drop 4 input)) = kl" by (simp add: kl_def declared_keyLen_def)
  have u: "uint32 (8 + kl + 1) = 9 + kl" "uint32 (8 + kl) = 8 + kl" "uint32 (9 + kl) = 9 + kl"
    "uint32 (length input) = length input"
    using kw len by (simp_all add: uint32_id kl_def)
  show ?thesis
  proof (cases "9 + kl < length input")
    case False
    then have nf: "\<not> record_fits input" by (simp add: record_fits_def kl_def)
    have "\<exists>err. Decode e input = Inl err \<and> is_CorruptRecord err"
    proof (cases "length input < 9")
      case True
      then show ?thesis by (simp add: Decode_def)
    next
      case l9: False
      show ?thesis
      proof (cases "length input < 9 + kl")
        case True
        with l9 show ?thesis by (simp add: Decode_def keyLen u Let_def)
      next
        case False
        with \<open>\<not> 9 + kl < length input\<close> have eq: "length input = 9 + kl" by simp
        then have gs: "go_slice input 8 (8 + kl) = Some (take kl (drop 8 input))"
          by (simp add: go_slice_def)
        show ?thesis
          using l9 eq by (simp add: Decode_def keyLen u Let_def gs)
      qed
    qed
    with nf show ?thesis by simp
  next
    case True
    then have gs: "go_slice input 8 (8 + kl) = Some (take kl (drop 8 input))"
      by (simp add: go_slice_def)
    define e2 where "e2 = e\<lparr>key := take kl (drop 8 input), valueType := input ! (8 + kl)\<rparr>"
    define vd where "vd = drop (9 + kl) input"
    have step: "Decode e input = decode_value e2 vd"
      using True by (simp add: Decode_def keyLen u Let_def gs e2_def vd_def)
    have ne: "vd \<noteq> []" using True by (simp add: vd_def)
    have w: "Uint32 vd + 4 < 4294967296"
      using sw by (simp add: declared_strLen_def kl_def[symmetric] vd_def)
    have vt: "valueType e2 = input ! (8 + kl)" by (simp add: e2_def)
    have lv: "length vd = length input - (9 + kl)" by (simp add: vd_def)
    have fits: "record_fits input \<longleftrightarrow>
       ((valueType e2 = TypeString \<longrightarrow> 4 + Uint32 vd \<le> length vd)
          \<and> (valueType e2 = TypeInt64 \<longrightarrow> 8 \<le> length vd))"
      using True unfolding record_fits_def kl_def[symmetric] vt lv declared_strLen_def
      by (auto simp: vd_def)
    from decode_value_fits[OF w ne, of e2] show ?thesis
      unfolding step fits by blast
  qed
qed

theorem decode_validation_witness:
  "length size_zero_input < 4294967296 \<and> declared_keyLen size_zero_input + 9 < 4294967296
   \<and> declared_strLen size_zero_input + 4 < 4294967296
   \<and> record_fits size_zero_input \<and> (\<exists>e'. Decode entry0 size_zero_input = Inr e')
   \<and> length short_input < 4294967296 \<and> declared_keyLen short_input + 9 < 4294967296
   \<and> declared_strLen short_input + 4 < 4294967296
   \<and> \<not> record_fits short_input \<and> (\<exists>err. Decode entry0 short_input = Inl err \<and> is_CorruptRecord err)"
proof -
  have a: "length size_zero_input < 4294967296" "declared_keyLen size_zero_input + 9 < 4294967296"
    "declared_strLen size_zero_input + 4 < 4294967296" "record_fits size_zero_input"
    by (simp_all add: size_zero_input_def declared_keyLen_def declared_strLen_def record_fits_def
        Uint32_bytes Uint32_4 TypeString_def TypeInt64_def)
  have b: "length short_input < 4294967296" "declared_keyLen short_input + 9 < 4294967296"
    "declared_strLen short_input + 4 < 4294967296" "\<not> record_fits short_input"
    by (simp_all add: short_input_def declared_keyLen_def declared_strLen_def record_fits_def
        Uint32_bytes Uint32_4 Uint32_def TypeString_def TypeInt64_def)
  from decode_validation[OF a(1,2,3), of entry0] decode_validation[OF b(1,2,3), of entry0] a b
  show ?thesis by blast
qed

text \<open>C4 as stated fails: an input whose total-size field is 0 decodes, and so does an
  input of unknown type whose declared string length does not fit.\<close>

theorem decode_validation_counterexample:
  "Uint32 size_zero_input < 9
   \<and> Decode entry0 size_zero_input = Inr \<lparr>key = [], valueType = TypeInt64, stringValue = [], int64Value = 1\<rparr>
   \<and> 13 + declared_keyLen lenient_input + declared_strLen lenient_input > length lenient_input
   \<and> Decode entry0 lenient_input = Inr \<lparr>key = [], valueType = TypeString, stringValue = [100,0,0,0,65], int64Value = 0\<rparr>"
  by (simp add: size_zero_input_def lenient_input_def Decode_def decode_value_def decode_unknown_def
      declared_keyLen_def declared_strLen_def Uint32_bytes Uint32_4 Uint64_bytes uint32_def go_slice_def entry0_def
      TypeString_def TypeInt64_def Let_def)

text \<open>
  C5. At the end of the stream \<open>DecodeFromReader\<close> returns the clean \<open>EOF\<close>, and after
  a whole header with too few bytes it returns the incomplete-read error; but with one to
  three bytes left (a partial header) it returns the same clean \<open>EOF\<close> with count 0,
  and the index loop takes the file as ended.
\<close>

theorem stream_decode_partial_header:
  "fst (DecodeFromReader entry0 (NewReader [])) = (0, Inl EOF)
   \<and> fst (DecodeFromReader entry0 (NewReader [9])) = (0, Inl EOF)
   \<and> fst (DecodeFromReader entry0 (NewReader [9, 0, 0])) = (0, Inl EOF)
   \<and> fst (DecodeFromReader entry0 (NewReader [9, 0, 0, 0, 0, 0])) = (6, Inl (IncompleteRead 9 6))
   \<and> indexSegmentFile_loop 0 (NewReader [9, 0, 0]) 0 Map.empty = Inr Map.empty"
proof -
  have 1: "fst (DecodeFromReader entry0 (NewReader [9, 0, 0])) = (0, Inl EOF)"
    by (simp add: DecodeFromReader_NewReader)
  from indexSegmentFile_loop_err[OF 1, of 0 0 Map.empty]
  have "indexSegmentFile_loop 0 (NewReader [9, 0, 0]) 0 Map.empty = Inr Map.empty" by simp
  then show ?thesis
    by (simp add: DecodeFromReader_NewReader Uint32_bytes Let_def)
qed

text \<open>
  C6. The engine opened on an empty directory with \<open>maxSegmentSize = 100\<close>, after the
  puts of \<^verbatim>\<open>"a"\<close> (4000 bytes), \<^verbatim>\<open>"b"\<close> (100 bytes) and \<^verbatim>\<open>"c"\<close> (an int64), has
  two sealed segments and reads both strings back. The merge writes the two records into
  one file of 4128 bytes, fails to rebuild the index from it (the second record lies
  across the end of the reader's buffer) and leaves the old index: in either order of
  the merged records \<open>Get "b"\<close> now fails, and in one of them \<open>Get "a"\<close> returns the
  value of \<^verbatim>\<open>"b"\<close>.
\<close>

theorem merge_changes_get:
  "\<exists>db1 db2 db3.
     OpenWithMaxSegmentSize [] 100 = Inr example_db
     \<and> Put WriteOk id example_db [97] (replicate 4000 120) = (None, db1)
     \<and> Put WriteOk id db1 [98] (replicate 100 121) = (None, db2)
     \<and> PutInt64 WriteOk id db2 [99] 7 = (None, db3)
     \<and> Get db3 [97] = Inr (replicate 4000 120)
     \<and> Get db3 [98] = Inr (replicate 100 121)
     \<and> Put WriteOk id db3 merge_key [] = mergeSegments id db3
     \<and> fst (mergeSegments id db3) = Some (FailedToRebuildIndex (FailedToIndexSegment 0 (IncompleteRead 114 82)))
     \<and> Get (snd (mergeSegments id db3)) [98] = Inl ErrNotExist
     \<and> fst (mergeSegments rev db3) = Some (FailedToRebuildIndex (FailedToIndexSegment 0 (IncompleteRead 4014 3982)))
     \<and> Get (snd (mergeSegments rev db3)) [98] = Inl ErrNotExist
     \<and> Get (snd (mergeSegments rev db3)) [97] = Inr (replicate 100 121)"
proof -
  have "Put WriteOk id db_s3 merge_key [] = mergeSegments id db_s3"
    by (simp add: Put_def handlePut_def)
  with Open_empty put_s1 put_s2 put_s3 gets_s3(1,2) show ?thesis
    by (auto simp: merge_id_s3 merge_rev_s3 get_b_merged get_a_merged_rev)
qed

text \<open>
  C7. The engine opened on an empty directory with the default segment size, after
  successful puts of \<^verbatim>\<open>"a"\<close> (4000 bytes) and \<^verbatim>\<open>"b"\<close> (100 bytes), reads both
  back; after \<open>Close\<close>, opening the same directory fails, because the record of
  \<^verbatim>\<open>"b"\<close> lies across the end of the reader's buffer.
\<close>

theorem reopen_fails_after_two_puts:
  "\<exists>db0 db1 db2.
     OpenWithMaxSegmentSize [] defaultMaxSegmentSize = Inr db0
     \<and> Put WriteOk id db0 [97] (replicate 4000 120) = (None, db1)
     \<and> Put WriteOk id db1 [98] (replicate 100 121) = (None, db2)
     \<and> Get db2 [97] = Inr (replicate 4000 120)
     \<and> Get db2 [98] = Inr (replicate 100 121)
     \<and> OpenWithMaxSegmentSize (Close db2) defaultMaxSegmentSize =
           Inl (FailedToIndexSegment 0 (IncompleteRead 114 82))"
  using Open_empty_any[of defaultMaxSegmentSize] put_a put_b get_a get_b reopen_ab by blast





text \<open>
  C10. When the append-write of a put fails (an I/O error or a short write, after any
  number \<open>m\<close> of bytes), \<open>handlePut\<close> returns an error to the caller and the index is
  the one before the request; in a state with segment integrity and for a request of a
  supported value type the error is the write's.
\<close>

theorem write_failure_leaves_index:
  assumes "req_key req \<noteq> merge_key"
  shows "(\<exists>err. fst (handlePut (WriteFails m) order db req) = Some err)
       \<and> index (snd (handlePut (WriteFails m) order db req)) = index db
       \<and> (segments_ok db \<and> entry_of_request req \<noteq> None \<longrightarrow>
            fst (handlePut (WriteFails m) order db req) = Some WriteError)"
proof -
  define r where "r = (if int (outOffset db) \<ge> maxSegmentSize db then rotateActiveSegment db else (None, db))"
  have ri: "index (snd r) = index db"
    by (auto simp: r_def rotateActiveSegment_def Let_def openActiveSegment_props split: option.splits)
  have rok: "segments_ok db \<Longrightarrow> fst r = None"
    using segments_ok_rotate[of db] by (simp add: r_def)
  show ?thesis
  proof (cases r)
    case (Pair err db1)
    with ri have i1: "index db1 = index db" by simp
    from Pair rok have e1: "segments_ok db \<Longrightarrow> err = None" by simp
    show ?thesis
      using assms Pair i1 e1 unfolding handlePut_def r_def[symmetric]
      by (cases err; cases "entry_of_request req") (auto simp: write_file_def Let_def)
  qed
qed

theorem write_failure_leaves_index_witness:
  "req_key example_req \<noteq> merge_key
   \<and> fst (handlePut (WriteFails 3) id example_db example_req) = Some WriteError
   \<and> index (snd (handlePut (WriteFails 3) id example_db example_req)) = index example_db"
proof -
  have k: "req_key example_req \<noteq> merge_key" by (simp add: example_req_def merge_key_def)
  have "fst (handlePut (WriteFails 3) id example_db example_req) = Some WriteError"
    using k by (simp add: handlePut_def example_db_def example_req_def entry_of_request_def write_file_def Let_def)
  with k write_failure_leaves_index[OF k, of 3 id example_db] show ?thesis by simp
qed

section \<open>Further properties\<close>

text \<open>X1. Decoding the encoding of a string or int64 record of less than \<open>2^32\<close>
  encoded bytes from a slice gives the record back.\<close>

theorem codec_roundtrip:
  assumes "canonical r" and "length (Encode r) < 4294967296"
  shows "Decode entry0 (Encode r) = Inr r"
  using Decode_Encode[OF assms(2), of entry0] decoded_into_canonical[OF assms(1)] by simp

theorem codec_roundtrip_witness:
  "canonical example_entry \<and> length (Encode example_entry) < 4294967296
   \<and> Decode entry0 (Encode example_entry) = Inr example_entry"
proof -
  have c: "canonical example_entry" by (simp add: canonical_def example_entry_def)
  have l: "length (Encode example_entry) < 4294967296"
    by (simp add: length_Encode payload_len_def example_entry_def)
  from codec_roundtrip[OF c l] c l show ?thesis by simp
qed

text \<open>X2. Decoding from a fresh reader over the encoding of a string or int64 record of
  at most 4096 encoded bytes, whatever follows it in the stream, gives the number of
  encoded bytes and the record.\<close>

theorem stream_roundtrip_within_buffer:
  assumes "canonical r" and "length (Encode r) \<le> 4096"
  shows "fst (DecodeFromReader entry0 (NewReader (Encode r @ rest))) = (length (Encode r), Inr r)"
  using decode_fresh_Encode[OF assms(2), of entry0 rest] decoded_into_canonical[OF assms(1)] by simp

theorem stream_roundtrip_within_buffer_witness:
  "canonical example_entry \<and> length (Encode example_entry) \<le> 4096
   \<and> fst (DecodeFromReader entry0 (NewReader (Encode example_entry @ [1, 2, 3]))) = (16, Inr example_entry)"
proof -
  have c: "canonical example_entry" by (simp add: canonical_def example_entry_def)
  have l: "length (Encode example_entry) \<le> 4096" "length (Encode example_entry) = 16"
    by (simp_all add: length_Encode payload_len_def example_entry_def)
  from stream_roundtrip_within_buffer[OF c l(1), of "[1, 2, 3]"] c l show ?thesis by simp
qed

text \<open>X3. A successful put does not change what \<open>Get\<close> or \<open>GetInt64\<close> returns for
  another key that was readable.\<close>

theorem put_independence:
  assumes "db_ok db" and "req_key req \<noteq> merge_key" and "req_key req \<noteq> k"
    and "handlePut WriteOk order db req = (None, db')"
  shows "(Get db k = Inr v \<longrightarrow> Get db' k = Inr v) \<and> (GetInt64 db k = Inr i \<longrightarrow> GetInt64 db' k = Inr i)"
proof (intro conjI impI)
  assume "Get db k = Inr v"
  then obtain rcd where r: "readIndexed db k = Inr rcd"
    by (cases "readIndexed db k") (auto simp: Get_def)
  from readIndexed_other_put[OF assms r] r \<open>Get db k = Inr v\<close> show "Get db' k = Inr v"
    by (simp add: Get_def)
next
  assume "GetInt64 db k = Inr i"
  then obtain rcd where r: "readIndexed db k = Inr rcd"
    by (cases "readIndexed db k") (auto simp: GetInt64_def)
  from readIndexed_other_put[OF assms r] r \<open>GetInt64 db k = Inr i\<close> show "GetInt64 db' k = Inr i"
    by (simp add: GetInt64_def)
qed

theorem put_independence_witness:
  "db_ok db_s1 \<and> [98] \<noteq> merge_key \<and> ([98] :: bytes) \<noteq> [97]
   \<and> Put WriteOk id db_s1 [98] (replicate 100 121) = (None, db_s2)
   \<and> Get db_s1 [97] = Inr (replicate 4000 120) \<and> Get db_s2 [97] = Inr (replicate 4000 120)"
proof -
  have ok: "db_ok db_s1"
    by (simp add: db_ok_def segments_ok_def offset_ok_def db_s1_def segment_file_ids_def)
  have k: "req_key \<lparr>req_key = [98], req_value = replicate 100 121, req_int64Value = 0, req_valueType = TypeString\<rparr> \<noteq> merge_key"
    "req_key \<lparr>req_key = [98], req_value = replicate 100 121, req_int64Value = 0, req_valueType = TypeString\<rparr> \<noteq> [97]"
    by (simp_all add: merge_key_def)
  have g: "Get db_s1 [97] = Inr (replicate 4000 120)"
    using read_single[of rec_a]
    by (simp add: Get_def readIndexed_def db_s1_def length_rec_a) (simp add: rec_a_def)
  from put_independence[OF ok k put_s2[unfolded Put_def], of "replicate 4000 120"] g ok put_s2
  show ?thesis by (simp add: merge_key_def)
qed

text \<open>X4. After a successful put of a string the int64 accessor reports a type mismatch
  for the key, and after a put of an int64 the string accessor does (records of at most
  4096 encoded bytes).\<close>

theorem accessor_type_mismatch:
  assumes "db_ok db" and "k \<noteq> merge_key"
  shows "(13 + length k + length v \<le> 4096 \<longrightarrow>
           (\<exists>db1. Put WriteOk order db k v = (None, db1) \<and> GetInt64 db1 k = Inl ErrTypeMismatch))
       \<and> (17 + length k \<le> 4096 \<longrightarrow>
           (\<exists>db1. PutInt64 WriteOk order db k i = (None, db1) \<and> Get db1 k = Inl ErrTypeMismatch))"
proof (intro conjI impI)
  assume sz: "13 + length k + length v \<le> 4096"
  define req where "req = \<lparr>req_key = k, req_value = v, req_int64Value = 0, req_valueType = TypeString\<rparr>"
  define e where "e = \<lparr>key = k, valueType = TypeString, stringValue = v, int64Value = 0\<rparr>"
  have er: "entry_of_request req = Some e" by (simp add: entry_of_request_def req_def e_def)
  have kr: "req_key req \<noteq> merge_key" "req_key req = k" using assms(2) by (simp_all add: req_def)
  have le: "length (Encode e) \<le> 4096" using sz by (simp add: length_Encode payload_len_def e_def)
  from handlePut_succeeds[OF assms(1) kr(1) er, of order] obtain db1 where
    h: "handlePut WriteOk order db req = (None, db1)" by blast
  have "readIndexed db1 k = Inr e"
    using readIndexed_after_put[OF assms(1) kr(1) er le h] kr(2) by simp
  then have "GetInt64 db1 k = Inl ErrTypeMismatch" by (simp add: GetInt64_def e_def)
  with h show "\<exists>db1. Put WriteOk order db k v = (None, db1) \<and> GetInt64 db1 k = Inl ErrTypeMismatch"
    by (auto simp: Put_def req_def)
next
  assume sz: "17 + length k \<le> 4096"
  define req where "req = \<lparr>req_key = k, req_value = [], req_int64Value = i, req_valueType = TypeInt64\<rparr>"
  define e where "e = \<lparr>key = k, valueType = TypeInt64, stringValue = [], int64Value = i\<rparr>"
  have er: "entry_of_request req = Some e" by (simp add: entry_of_request_def req_def e_def)
  have kr: "req_key req \<noteq> merge_key" "req_key req = k" using assms(2) by (simp_all add: req_def)
  have le: "length (Encode e) \<le> 4096" using sz by (simp add: length_Encode payload_len_def e_def)
  from handlePut_succeeds[OF assms(1) kr(1) er, of order] obtain db1 where
    h: "handlePut WriteOk order db req = (None, db1)" by blast
  have "readIndexed db1 k = Inr e"
    using readIndexed_after_put[OF assms(1) kr(1) er le h] kr(2) by simp
  then have "Get db1 k = Inl ErrTypeMismatch" by (simp add: Get_def e_def)
  with h show "\<exists>db1. PutInt64 WriteOk order db k i = (None, db1) \<and> Get db1 k = Inl ErrTypeMismatch"
    by (auto simp: PutInt64_def req_def)
qed

theorem accessor_type_mismatch_witness:
  "db_ok example_db \<and> [110] \<noteq> merge_key
   \<and> (\<exists>db1. Put WriteOk id example_db [110] [52, 50] = (None, db1) \<and> GetInt64 db1 [110] = Inl ErrTypeMismatch)
   \<and> (\<exists>db1. PutInt64 WriteOk id example_db [110] 42 = (None, db1) \<and> Get db1 [110] = Inl ErrTypeMismatch)"
proof -
  have k: "[110] \<noteq> merge_key" by (simp add: merge_key_def)
  from accessor_type_mismatch[OF example_db_ok k, of "[52, 50]" id 42] example_db_ok k
  show ?thesis by simp
qed

text \<open>X5. The state invariant \<open>db_ok\<close> that the put and get theorems assume (segment
  integrity, and the offset counter is the length of the active file) holds after every
  successful open and is preserved by every successful put and by every merge.\<close>

theorem state_invariant:
  "(OpenWithMaxSegmentSize d m = Inr db \<longrightarrow> db_ok db)
   \<and> (db_ok db \<and> req_key req \<noteq> merge_key \<and> handlePut WriteOk order db req = (None, db') \<longrightarrow> db_ok db')
   \<and> (db_ok db \<longrightarrow> db_ok (snd (mergeSegments order db)))"
proof (intro conjI impI)
  assume "OpenWithMaxSegmentSize d m = Inr db"
  then show "db_ok db" using segments_ok_Open offset_ok_Open by (simp add: db_ok_def)
next
  assume "db_ok db \<and> req_key req \<noteq> merge_key \<and> handlePut WriteOk order db req = (None, db')"
  then show "db_ok db'" using db_ok_handlePut by blast
next
  assume ok: "db_ok db"
  then have s: "segments_ok db" by (simp add: db_ok_def)
  from mergeSegments_keeps_active[OF s, of order] ok have "offset_ok (snd (mergeSegments order db))"
    by (auto simp: db_ok_def offset_ok_def split: option.splits)
  with segments_ok_merge[OF s, of order] show "db_ok (snd (mergeSegments order db))"
    by (simp add: db_ok_def)
qed

theorem state_invariant_witness:
  "OpenWithMaxSegmentSize [] 100 = Inr example_db \<and> db_ok example_db
   \<and> req_key example_req \<noteq> merge_key
   \<and> (\<exists>db'. handlePut WriteOk id example_db example_req = (None, db') \<and> db_ok db')
   \<and> db_ok (snd (mergeSegments id example_db))"
proof -
  have k: "req_key example_req \<noteq> merge_key" by (simp add: example_req_def merge_key_def)
  have e: "entry_of_request example_req = Some example_entry"
    by (simp add: example_req_def entry_of_request_def example_entry_def)
  have ok: "db_ok example_db"
    using state_invariant[of "[]" 100 example_db example_req id example_db] Open_empty by simp
  from handlePut_succeeds[OF ok k e, of id] obtain db' where
    h: "handlePut WriteOk id example_db example_req = (None, db')" by blast
  from state_invariant[of "[]" 100 example_db example_req id db'] Open_empty k h ok
  show ?thesis by auto
qed

end
